theory Spec2Isabelle
  imports Main "HOL-Library.Sublist"
begin

section \<open>Refresh Coordinator: the RefreshingFetchAdapter\<close>

subsection \<open>Values that cross the adapter\<close>

text \<open>
  What a rejected promise carries. \<open>NAuthClientError\<close> is the client library's typed
  failure; its \<open>statusCode\<close> is absent for failures that never got an HTTP status.
  Anything else that can be thrown is \<open>OtherError\<close>.
\<close>

datatype error = NAuthClientError (statusCode: "nat option") | OtherError string

text \<open>How a promise settles.\<close>

datatype 'a outcome = Resolved 'a | Rejected error

record HttpRequest =
  httpMethod :: string
  url :: string
  body :: "string option"

text \<open>The session client is only a reference for the adapter: it is tested against null
  and asked to refresh.\<close>

datatype NAuthClient = NAuthClient nat

text \<open>\<^verbatim>\<open>String.prototype.includes\<close>: \<open>needle\<close> occurs somewhere in the string.\<close>

fun str_includes :: "string \<Rightarrow> string \<Rightarrow> bool" where
  "str_includes [] needle = (needle = [])"
| "str_includes (c # cs) needle = (prefix needle (c # cs) \<or> str_includes cs needle)"

subsection \<open>The world outside\<close>

text \<open>
  The inner FetchAdapter and \<^verbatim>\<open>client.refreshTokens()\<close> talk to the remote service.
  Their answers are parameters: \<open>inner_response net k config\<close> is how the \<open>k\<close>-th call
  of \<^verbatim>\<open>inner.request\<close> settles (counting from 0), \<open>refresh_response net h\<close> how the
  \<open>h\<close>-th call of \<^verbatim>\<open>refreshTokens\<close> settles, after \<^verbatim>\<open>.then(() => undefined)\<close> has
  dropped its value.
\<close>

record 'a network =
  inner_response :: "nat \<Rightarrow> HttpRequest \<Rightarrow> 'a outcome"
  refresh_response :: "nat \<Rightarrow> unit outcome"

subsection \<open>The adapter's state\<close>

text \<open>
  \<open>client\<close> and \<open>refreshPromise\<close> are the two mutable fields of the class. A promise is
  identified by the number of the \<^verbatim>\<open>refreshTokens()\<close> call that made it. The other
  fields record what the adapter did: every \<^verbatim>\<open>inner.request(config)\<close> in order, the
  number of \<^verbatim>\<open>refreshTokens()\<close> calls, the refresh calls that have not settled yet, and
  how often the \<^verbatim>\<open>finally\<close> callback ran.
\<close>

record adapter =
  client :: "NAuthClient option"
  refreshPromise :: "nat option"
  inner_calls :: "HttpRequest list"
  refresh_calls :: nat
  in_flight :: "nat list"
  cleared :: nat

definition new_adapter :: adapter where
  "new_adapter = \<lparr>client = None, refreshPromise = None, inner_calls = [],
     refresh_calls = 0, in_flight = [], cleared = 0\<rparr>"

definition setClient :: "NAuthClient \<Rightarrow> 'm adapter_scheme \<Rightarrow> 'm adapter_scheme" where
  "setClient c a = a\<lparr>client := Some c\<rparr>"

subsection \<open>The tests of the catch block\<close>

definition is401 :: "error \<Rightarrow> bool" where
  "is401 err = (case err of NAuthClientError sc \<Rightarrow> sc = Some 401 | OtherError _ \<Rightarrow> False)"

definition isRefreshEndpoint :: "HttpRequest \<Rightarrow> bool" where
  "isRefreshEndpoint config = str_includes (url config) ''/refresh''"

definition canRefresh :: "'m adapter_scheme \<Rightarrow> bool" where
  "canRefresh a = (client a \<noteq> None)"

subsection \<open>doRefresh\<close>

text \<open>
  The synchronous part: when no promise is stored, call \<^verbatim>\<open>refreshTokens()\<close> and store
  the promise; either way return the stored promise.
\<close>

definition doRefresh :: "'m adapter_scheme \<Rightarrow> nat \<times> 'm adapter_scheme" where
  "doRefresh a =
     (case refreshPromise a of
        None \<Rightarrow>
          (let h = refresh_calls a
           in (h, a\<lparr>refreshPromise := Some h, refresh_calls := Suc h,
                     in_flight := in_flight a @ [h]\<rparr>))
      | Some h \<Rightarrow> (h, a))"

text \<open>
  When the refresh call \<open>h\<close> settles, its \<^verbatim>\<open>finally\<close> callback runs before any waiter
  resumes: it sets \<open>refreshPromise\<close> to null, whatever is stored there.
\<close>

definition refresh_settled :: "nat \<Rightarrow> 'm adapter_scheme \<Rightarrow> 'm adapter_scheme" where
  "refresh_settled h a =
     a\<lparr>refreshPromise := None, in_flight := removeAll h (in_flight a),
       cleared := Suc (cleared a)\<rparr>"

subsection \<open>request, for one caller\<close>

text \<open>
  One call of \<^verbatim>\<open>request(config)\<close> from its start to its settlement, with no other
  caller's steps in between. \<open>await_doRefresh\<close> is \<^verbatim>\<open>await this.doRefresh()\<close>: the
  caller resumes with the promise's outcome once the promise has settled. When the promise
  was made by this call, its callback clears the field; when it was found in the field, the
  call that made it does.
\<close>

definition inner_request ::
  "'a network \<Rightarrow> HttpRequest \<Rightarrow> 'm adapter_scheme \<Rightarrow> 'a outcome \<times> 'm adapter_scheme" where
  "inner_request net config a =
     (inner_response net (length (inner_calls a)) config,
      a\<lparr>inner_calls := inner_calls a @ [config]\<rparr>)"

definition await_doRefresh ::
  "'a network \<Rightarrow> 'm adapter_scheme \<Rightarrow> unit outcome \<times> 'm adapter_scheme" where
  "await_doRefresh net a =
     (case doRefresh a of (h, a1) \<Rightarrow> (refresh_response net h, refresh_settled h a1))"

definition request ::
  "'a network \<Rightarrow> HttpRequest \<Rightarrow> 'm adapter_scheme \<Rightarrow> 'a outcome \<times> 'm adapter_scheme" where
  "request net config a =
     (case inner_request net config a of
        (Resolved r, a1) \<Rightarrow> (Resolved r, a1)
      | (Rejected err, a1) \<Rightarrow>
          if is401 err \<and> \<not> isRefreshEndpoint config \<and> canRefresh a1 then
            (case await_doRefresh net a1 of
               (Rejected e, a2) \<Rightarrow> (Rejected e, a2)
             | (Resolved _, a2) \<Rightarrow> inner_request net config a2)
          else (Rejected err, a1))"

text \<open>The promise a caller that now reaches \<open>doRefresh\<close> would wait for.\<close>

definition awaited_refresh :: "'m adapter_scheme \<Rightarrow> nat" where
  "awaited_refresh a = (case refreshPromise a of None \<Rightarrow> refresh_calls a | Some h \<Rightarrow> h)"

subsection \<open>Concrete inputs\<close>

definition err401 :: error where
  "err401 = NAuthClientError (Some 401)"

definition profile_request :: HttpRequest where
  "profile_request = \<lparr>httpMethod = ''GET'', url = ''/auth/profile'', body = None\<rparr>"

definition settings_request :: HttpRequest where
  "settings_request =
     \<lparr>httpMethod = ''GET'', url = ''/users/refresh-preferences'', body = None\<rparr>"

definition wired_adapter :: adapter where
  "wired_adapter = setClient (NAuthClient 0) new_adapter"

text \<open>A service that answers at once.\<close>

definition net_ok :: "string network" where
  "net_ok = \<lparr>inner_response = (\<lambda>k config. Resolved ''profile''),
     refresh_response = (\<lambda>h. Resolved ())\<rparr>"

text \<open>A service that refuses every request with 403.\<close>

definition net_forbidden :: "string network" where
  "net_forbidden = \<lparr>inner_response = (\<lambda>k config. Rejected (NAuthClientError (Some 403))),
     refresh_response = (\<lambda>h. Resolved ())\<rparr>"

text \<open>A service whose access credential has expired and stays refused after a refresh
  that succeeds: every request gets 401.\<close>

definition net_always_401 :: "string network" where
  "net_always_401 = \<lparr>inner_response = (\<lambda>k config. Rejected err401),
     refresh_response = (\<lambda>h. Resolved ())\<rparr>"

text \<open>A service whose session has expired: every request gets 401 and the refresh is
  rejected.\<close>

definition session_expired :: error where
  "session_expired = OtherError ''session expired''"

definition net_refresh_fails :: "string network" where
  "net_refresh_fails = \<lparr>inner_response = (\<lambda>k config. Rejected err401),
     refresh_response = (\<lambda>h. Rejected session_expired)\<rparr>"

section \<open>Refresh Coordinator: several callers on one event loop\<close>

text \<open>
  JavaScript runs one callback at a time. A call of \<open>request\<close> runs until its first
  \<^verbatim>\<open>await\<close>, and goes on when what it waits for has settled; between the two, other
  calls take their steps. An invocation is therefore in one of four phases: waiting for
  its first attempt (line 45), waiting for the refresh promise \<open>h\<close> (line 52), waiting for
  its second attempt (line 54), or settled. \<open>attempts\<close> counts the calls of
  \<^verbatim>\<open>inner.request\<close> made for it. The invocations that wait for the refresh promise
  are resumed in the order in which they began to wait; \<open>waiters\<close> keeps that order.
\<close>

datatype 'a phase = AwaitInner | AwaitRefresh nat | AwaitRetry | Settled "'a outcome"

record 'a invocation =
  request_config :: HttpRequest
  phase :: "'a phase"
  attempts :: nat

record 'a coordinator = adapter +
  invocations :: "'a invocation list"
  waiters :: "nat list"

text \<open>
  What the world does to the adapter: somebody calls \<open>request\<close>; the inner request an
  invocation waits for settles; a refresh call that is in flight settles.
\<close>

datatype 'a event =
  Call HttpRequest
| InnerSettles nat "'a outcome"
| RefreshSettles nat "unit outcome"

definition set_phase :: "nat \<Rightarrow> 'a phase \<Rightarrow> 'a coordinator \<Rightarrow> 'a coordinator" where
  "set_phase i p c =
     c\<lparr>invocations := (invocations c)[i := (invocations c ! i)\<lparr>phase := p\<rparr>]\<rparr>"

text \<open>The start of \<open>request\<close>: the first attempt is issued.\<close>

definition call_request :: "HttpRequest \<Rightarrow> 'a coordinator \<Rightarrow> 'a coordinator" where
  "call_request config c =
     c\<lparr>inner_calls := inner_calls c @ [config],
       invocations := invocations c @
         [\<lparr>request_config = config, phase = AwaitInner, attempts = 1\<rparr>]\<rparr>"

text \<open>
  The first attempt of invocation \<open>i\<close> settles: lines 45 to 57. On the refresh path the
  invocation calls \<open>doRefresh\<close> and waits for the promise it returns.
\<close>

definition first_attempt_settled ::
  "nat \<Rightarrow> 'a outcome \<Rightarrow> 'a coordinator \<Rightarrow> 'a coordinator" where
  "first_attempt_settled i settlement c =
     (case settlement of
        Resolved r \<Rightarrow> set_phase i (Settled (Resolved r)) c
      | Rejected err \<Rightarrow>
          if is401 err \<and> \<not> isRefreshEndpoint (request_config (invocations c ! i))
               \<and> canRefresh c then
            (case doRefresh c of
               (h, c1) \<Rightarrow> (set_phase i (AwaitRefresh h) c1)\<lparr>waiters := waiters c1 @ [i]\<rparr>)
          else set_phase i (Settled (Rejected err)) c)"

text \<open>The second attempt settles: its outcome is the outcome of \<open>request\<close>.\<close>

definition retry_settled :: "nat \<Rightarrow> 'a outcome \<Rightarrow> 'a coordinator \<Rightarrow> 'a coordinator" where
  "retry_settled i settlement c = set_phase i (Settled settlement) c"

text \<open>
  The refresh call \<open>h\<close> settles. Its \<^verbatim>\<open>finally\<close> callback runs, then every invocation
  that waits for the promise \<open>h\<close> goes on, in the order in which they began to wait: after
  a resolved refresh it issues its second attempt (line 54), after a rejected one the
  \<^verbatim>\<open>await\<close> throws the rejection out of \<open>request\<close>. These callbacks are queued together
  when the promise settles; the model takes them as one step.
\<close>

definition resume :: "nat \<Rightarrow> unit outcome \<Rightarrow> 'a invocation \<Rightarrow> 'a invocation" where
  "resume h settlement w =
     (if phase w = AwaitRefresh h then
        (case settlement of
           Resolved _ \<Rightarrow> w\<lparr>phase := AwaitRetry, attempts := Suc (attempts w)\<rparr>
         | Rejected e \<Rightarrow> w\<lparr>phase := Settled (Rejected e)\<rparr>)
      else w)"

definition resumed :: "nat \<Rightarrow> 'a coordinator \<Rightarrow> nat list" where
  "resumed h c = filter (\<lambda>i. phase (invocations c ! i) = AwaitRefresh h) (waiters c)"

definition reissued :: "nat \<Rightarrow> unit outcome \<Rightarrow> 'a coordinator \<Rightarrow> HttpRequest list" where
  "reissued h settlement c =
     (case settlement of
        Resolved _ \<Rightarrow> map (\<lambda>i. request_config (invocations c ! i)) (resumed h c)
      | Rejected _ \<Rightarrow> [])"

definition refresh_settles ::
  "nat \<Rightarrow> unit outcome \<Rightarrow> 'a coordinator \<Rightarrow> 'a coordinator" where
  "refresh_settles h settlement c =
     (refresh_settled h c)
       \<lparr>inner_calls := inner_calls c @ reissued h settlement c,
        invocations := map (resume h settlement) (invocations c),
        waiters := filter (\<lambda>i. phase (invocations c ! i) \<noteq> AwaitRefresh h) (waiters c)\<rparr>"

text \<open>One event; \<open>None\<close> when the event cannot happen in the state.\<close>

fun step :: "'a event \<Rightarrow> 'a coordinator \<Rightarrow> 'a coordinator option" where
  "step (Call config) c = Some (call_request config c)"
| "step (InnerSettles i settlement) c =
     (if i < length (invocations c) then
        (case phase (invocations c ! i) of
           AwaitInner \<Rightarrow> Some (first_attempt_settled i settlement c)
         | AwaitRetry \<Rightarrow> Some (retry_settled i settlement c)
         | AwaitRefresh _ \<Rightarrow> None
         | Settled _ \<Rightarrow> None)
      else None)"
| "step (RefreshSettles h settlement) c =
     (if h \<in> set (in_flight c) then Some (refresh_settles h settlement c) else None)"

fun run :: "'a event list \<Rightarrow> 'a coordinator \<Rightarrow> 'a coordinator option" where
  "run [] c = Some c"
| "run (e # es) c = (case step e c of None \<Rightarrow> None | Some c' \<Rightarrow> run es c')"

fun is_refresh_settles :: "'a event \<Rightarrow> bool" where
  "is_refresh_settles (RefreshSettles _ _) = True"
| "is_refresh_settles _ = False"

text \<open>The adapter as AuthProvider sets it up: made, then given the client.\<close>

definition idle :: "'a coordinator" where
  "idle = \<lparr>client = Some (NAuthClient 0), refreshPromise = None, inner_calls = [],
     refresh_calls = 0, in_flight = [], cleared = 0, invocations = [], waiters = []\<rparr>"

text \<open>The promise an invocation waits for, and the invocations that wait for one.\<close>

fun awaits :: "'a phase \<Rightarrow> nat option" where
  "awaits (AwaitRefresh h) = Some h"
| "awaits AwaitInner = None"
| "awaits AwaitRetry = None"
| "awaits (Settled _) = None"

definition waiting :: "'a coordinator \<Rightarrow> nat list" where
  "waiting c =
     filter (\<lambda>i. awaits (phase (invocations c ! i)) \<noteq> None) [0 ..< length (invocations c)]"

text \<open>
  The state of the refresh handle that the data model asks for: the refresh calls in
  flight are exactly the stored promise, every waiting invocation waits for the stored
  promise, a promise in flight is the one of the latest refresh call, and the callback
  that clears the field has run once for each refresh call that has settled.
\<close>

definition single_flight :: "'a coordinator \<Rightarrow> bool" where
  "single_flight c =
     (in_flight c = (case refreshPromise c of None \<Rightarrow> [] | Some h \<Rightarrow> [h])
      \<and> list_all (\<lambda>w. awaits (phase w) = None \<or> awaits (phase w) = refreshPromise c)
           (invocations c)
      \<and> list_all (\<lambda>h. Suc h = refresh_calls c) (in_flight c)
      \<and> refresh_calls c = cleared c + length (in_flight c))"

text \<open>The queue of waiters holds the waiting invocations, each once.\<close>

definition queued :: "'a coordinator \<Rightarrow> bool" where
  "queued c = (distinct (waiters c) \<and> set (waiters c) = set (waiting c))"

text \<open>
  How often a request can have been issued in each phase of its invocation: once until
  the refresh it waits for has resolved, twice from then on.
\<close>

fun attempts_allowed :: "'a phase \<Rightarrow> nat list" where
  "attempts_allowed AwaitInner = [1]"
| "attempts_allowed (AwaitRefresh h) = [1]"
| "attempts_allowed AwaitRetry = [2]"
| "attempts_allowed (Settled _) = [1, 2]"

definition counted :: "'a coordinator \<Rightarrow> bool" where
  "counted c = list_all (\<lambda>w. attempts w \<in> set (attempts_allowed (phase w))) (invocations c)"

text \<open>
  The requests whose first attempt fails with a 401 that is not against the refresh
  endpoint while a session client is attached, as the events tell it: \<open>qualifying e c\<close>
  is the invocation for which the event \<open>e\<close> is such a failure in the state \<open>c\<close>, and
  \<open>refused es c\<close> lists these invocations for a course of events, in the order of the
  failures.
\<close>

fun qualifying :: "'a event \<Rightarrow> 'a coordinator \<Rightarrow> nat list" where
  "qualifying (InnerSettles i (Rejected err)) c =
     (if i < length (invocations c) \<and> phase (invocations c ! i) = AwaitInner
         \<and> is401 err \<and> \<not> isRefreshEndpoint (request_config (invocations c ! i))
         \<and> canRefresh c
      then [i] else [])"
| "qualifying (InnerSettles i (Resolved r)) c = []"
| "qualifying (Call config) c = []"
| "qualifying (RefreshSettles h settlement) c = []"

fun refused :: "'a event list \<Rightarrow> 'a coordinator \<Rightarrow> nat list" where
  "refused [] c = []"
| "refused (e # es) c =
     (case step e c of None \<Rightarrow> [] | Some c' \<Rightarrow> qualifying e c @ refused es c')"

text \<open>
  The events of one call of \<open>request\<close> that runs from its start to its settlement with the
  answers of \<open>net\<close> while nothing else happens.
\<close>

definition alone :: "'a network \<Rightarrow> HttpRequest \<Rightarrow> 'a coordinator \<Rightarrow> 'a event list" where
  "alone net config c =
     (let i = length (invocations c);
          k = length (inner_calls c);
          first = inner_response net k config
      in [Call config, InnerSettles i first] @
         (case first of
            Resolved _ \<Rightarrow> []
          | Rejected err \<Rightarrow>
              if is401 err \<and> \<not> isRefreshEndpoint config \<and> canRefresh c then
                RefreshSettles (refresh_calls c) (refresh_response net (refresh_calls c)) #
                  (case refresh_response net (refresh_calls c) of
                     Resolved _ \<Rightarrow> [InnerSettles i (inner_response net (Suc k) config)]
                   | Rejected _ \<Rightarrow> [])
              else []))"

subsection \<open>Concrete schedules\<close>

definition orders_request :: HttpRequest where
  "orders_request = \<lparr>httpMethod = ''GET'', url = ''/orders'', body = None\<rparr>"

text \<open>Two requests are under way together and both have got a 401, the second one
  first; the refresh that its 401 started has not settled.\<close>

definition two_waiting :: "string event list" where
  "two_waiting =
     [Call profile_request, Call orders_request,
      InnerSettles 1 (Rejected err401), InnerSettles 0 (Rejected err401)]"

definition two_waiting_state :: "string coordinator" where
  "two_waiting_state =
     \<lparr>client = Some (NAuthClient 0), refreshPromise = Some 0,
      inner_calls = [profile_request, orders_request],
      refresh_calls = 1, in_flight = [0], cleared = 0,
      invocations =
        [\<lparr>request_config = profile_request, phase = AwaitRefresh 0, attempts = 1\<rparr>,
         \<lparr>request_config = orders_request, phase = AwaitRefresh 0, attempts = 1\<rparr>],
      waiters = [1, 0]\<rparr>"

text \<open>Two requests are under way together and the first one has got a 401; the second
  one has no answer yet.\<close>

definition one_waiting :: "string event list" where
  "one_waiting =
     [Call profile_request, Call orders_request, InnerSettles 0 (Rejected err401)]"

definition one_waiting_state :: "string coordinator" where
  "one_waiting_state =
     \<lparr>client = Some (NAuthClient 0), refreshPromise = Some 0,
      inner_calls = [profile_request, orders_request],
      refresh_calls = 1, in_flight = [0], cleared = 0,
      invocations =
        [\<lparr>request_config = profile_request, phase = AwaitRefresh 0, attempts = 1\<rparr>,
         \<lparr>request_config = orders_request, phase = AwaitInner, attempts = 1\<rparr>],
      waiters = [0]\<rparr>"

text \<open>Three requests are under way together and all have got a 401: the third one
  first, then the first one, then the second one.\<close>

definition three_waiting :: "string event list" where
  "three_waiting =
     [Call profile_request, Call orders_request, Call profile_request,
      InnerSettles 2 (Rejected err401), InnerSettles 0 (Rejected err401),
      InnerSettles 1 (Rejected err401)]"

definition three_waiting_state :: "string coordinator" where
  "three_waiting_state =
     \<lparr>client = Some (NAuthClient 0), refreshPromise = Some 0,
      inner_calls = [profile_request, orders_request, profile_request],
      refresh_calls = 1, in_flight = [0], cleared = 0,
      invocations =
        [\<lparr>request_config = profile_request, phase = AwaitRefresh 0, attempts = 1\<rparr>,
         \<lparr>request_config = orders_request, phase = AwaitRefresh 0, attempts = 1\<rparr>,
         \<lparr>request_config = profile_request, phase = AwaitRefresh 0, attempts = 1\<rparr>],
      waiters = [2, 0, 1]\<rparr>"

text \<open>The state of \<open>two_waiting\<close> after the refresh has resolved.\<close>

definition two_retried_state :: "string coordinator" where
  "two_retried_state =
     \<lparr>client = Some (NAuthClient 0), refreshPromise = None,
      inner_calls = [profile_request, orders_request, orders_request, profile_request],
      refresh_calls = 1, in_flight = [], cleared = 1,
      invocations =
        [\<lparr>request_config = profile_request, phase = AwaitRetry, attempts = 2\<rparr>,
         \<lparr>request_config = orders_request, phase = AwaitRetry, attempts = 2\<rparr>],
      waiters = []\<rparr>"

text \<open>Two requests are under way together; the answer to the second one is slow, and its
  401 arrives when the refresh that the first one started has resolved.\<close>

definition first_refreshed :: "string event list" where
  "first_refreshed =
     [Call profile_request, Call orders_request,
      InnerSettles 0 (Rejected err401), RefreshSettles 0 (Resolved ())]"

definition first_refreshed_state :: "string coordinator" where
  "first_refreshed_state =
     \<lparr>client = Some (NAuthClient 0), refreshPromise = None,
      inner_calls = [profile_request, orders_request, profile_request],
      refresh_calls = 1, in_flight = [], cleared = 1,
      invocations =
        [\<lparr>request_config = profile_request, phase = AwaitRetry, attempts = 2\<rparr>,
         \<lparr>request_config = orders_request, phase = AwaitInner, attempts = 1\<rparr>],
      waiters = []\<rparr>"

definition slow_second_request :: "string event list" where
  "slow_second_request = first_refreshed @ [InnerSettles 1 (Rejected err401)]"

definition slow_second_state :: "string coordinator" where
  "slow_second_state =
     \<lparr>client = Some (NAuthClient 0), refreshPromise = Some 1,
      inner_calls = [profile_request, orders_request, profile_request],
      refresh_calls = 2, in_flight = [1], cleared = 1,
      invocations =
        [\<lparr>request_config = profile_request, phase = AwaitRetry, attempts = 2\<rparr>,
         \<lparr>request_config = orders_request, phase = AwaitRefresh 1, attempts = 1\<rparr>],
      waiters = [1]\<rparr>"

text \<open>Two requests are under way together; both get a 401 and the refresh is rejected.\<close>

definition refresh_rejected_for_two :: "string event list" where
  "refresh_rejected_for_two = two_waiting @ [RefreshSettles 0 (Rejected session_expired)]"

definition two_rejected_state :: "string coordinator" where
  "two_rejected_state =
     \<lparr>client = Some (NAuthClient 0), refreshPromise = None,
      inner_calls = [profile_request, orders_request],
      refresh_calls = 1, in_flight = [], cleared = 1,
      invocations =
        [\<lparr>request_config = profile_request, phase = Settled (Rejected session_expired),
          attempts = 1\<rparr>,
         \<lparr>request_config = orders_request, phase = Settled (Rejected session_expired),
          attempts = 1\<rparr>],
      waiters = []\<rparr>"

section \<open>Session Controller: the AuthProvider\<close>

subsection \<open>Data of the client library\<close>

record AuthUser =
  sub :: string
  email :: string

datatype AuthChallenge =
  VERIFY_EMAIL | VERIFY_PHONE | MFA_REQUIRED | MFA_SETUP_REQUIRED | FORCE_CHANGE_PASSWORD

record AuthResponse =
  challengeName :: "AuthChallenge option"
  session :: "string option"
  challengeParameters :: "(string \<times> string) list"

text \<open>JavaScript's test of a value in a condition: an object is truthy, null is not; a
  string is truthy unless it is null or empty.\<close>

definition truthy :: "'a option \<Rightarrow> bool" where
  "truthy v = (v \<noteq> None)"

definition truthy_string :: "string option \<Rightarrow> bool" where
  "truthy_string v = (v \<noteq> None \<and> v \<noteq> Some [])"

subsection \<open>State and renders\<close>

record SessionState =
  user :: "AuthUser option"
  challenge :: "AuthResponse option"
  isLoading :: bool

definition initial_state :: SessionState where
  "initial_state = \<lparr>user = None, challenge = None, isLoading = True\<rparr>"

definition isAuthenticated :: "SessionState \<Rightarrow> bool" where
  "isAuthenticated st = truthy (user st)"

text \<open>The calls of the three state setters.\<close>

datatype setter =
  SetUser "AuthUser option" | SetChallenge "AuthResponse option" | SetIsLoading bool

fun apply_setter :: "setter \<Rightarrow> SessionState \<Rightarrow> SessionState" where
  "apply_setter (SetUser u) st = st\<lparr>user := u\<rparr>"
| "apply_setter (SetChallenge c) st = st\<lparr>challenge := c\<rparr>"
| "apply_setter (SetIsLoading b) st = st\<lparr>isLoading := b\<rparr>"

text \<open>
  A callback runs to its end or to its next \<^verbatim>\<open>await\<close> without a render in between, and
  React 18 applies the setter calls of such a run together, in the order of the calls, in
  one render (the batching that the comments of ChallengePage name). \<open>render\<close> is the state
  of that render; \<open>observed\<close> is what the consumers of the context get to see because of the
  run: one new state when a setter was called, nothing otherwise.
\<close>

definition render :: "setter list \<Rightarrow> SessionState \<Rightarrow> SessionState" where
  "render calls st = fold apply_setter calls st"

definition observed :: "setter list \<Rightarrow> SessionState \<Rightarrow> SessionState list" where
  "observed calls st = (if calls = [] then [] else [render calls st])"

subsection \<open>The four event handlers\<close>

text \<open>
  Each handler is given \<open>mounted\<close>, the flag of the effect's closure, and what it reads
  from the client. \<open>currentUser\<close> is the value of \<^verbatim>\<open>client.getCurrentUser()\<close> at the time of
  the read. The handler of \<^verbatim>\<open>auth:success\<close> also says whether it called
  \<^verbatim>\<open>client.getProfile()\<close>.
\<close>

definition on_auth_success :: "bool \<Rightarrow> AuthUser option \<Rightarrow> setter list \<times> bool" where
  "on_auth_success mounted currentUser =
     (if \<not> mounted then ([], False)
      else (SetChallenge None #
              (if truthy currentUser then [SetUser currentUser] else []),
            True))"

text \<open>The two callbacks of \<^verbatim>\<open>client.getProfile().then(...)\<close> in that handler; the second
  reads the client's cache again when it runs.\<close>

definition on_auth_success_profile ::
  "bool \<Rightarrow> AuthUser outcome \<Rightarrow> AuthUser option \<Rightarrow> setter list" where
  "on_auth_success_profile mounted fetched currentUser =
     (case fetched of
        Resolved profile \<Rightarrow> if mounted then [SetUser (Some profile)] else []
      | Rejected _ \<Rightarrow> if mounted then [SetUser currentUser] else [])"

definition on_auth_challenge :: "bool \<Rightarrow> AuthResponse option \<Rightarrow> setter list" where
  "on_auth_challenge mounted data = (if \<not> mounted then [] else [SetChallenge data])"

definition on_auth_logout :: "bool \<Rightarrow> setter list" where
  "on_auth_logout mounted = (if \<not> mounted then [] else [SetUser None, SetChallenge None])"

definition on_auth_session_expired :: "bool \<Rightarrow> setter list" where
  "on_auth_session_expired mounted =
     (if \<not> mounted then [] else [SetUser None, SetChallenge None])"

subsection \<open>Hydration\<close>

text \<open>
  The asynchronous function of the effect, cut at its three \<^verbatim>\<open>await\<close>s. Each part
  returns the setter calls of its run and where the function waits next.
\<close>

datatype hydration = Stopped | AwaitProfile AuthUser | AwaitStoredChallenge

text \<open>After \<^verbatim>\<open>await client.initialize()\<close>.\<close>

definition hydrate_initialized :: "bool \<Rightarrow> AuthUser option \<Rightarrow> setter list \<times> hydration" where
  "hydrate_initialized mounted currentUser =
     (if \<not> mounted then ([], Stopped)
      else (case currentUser of
              Some current \<Rightarrow> ([], AwaitProfile current)
            | None \<Rightarrow> ([SetUser None], AwaitStoredChallenge)))"

text \<open>After \<^verbatim>\<open>await client.getProfile()\<close>, with \<open>current\<close> the user read before it.\<close>

definition hydrate_profile ::
  "bool \<Rightarrow> AuthUser \<Rightarrow> AuthUser outcome \<Rightarrow> setter list \<times> hydration" where
  "hydrate_profile mounted current fetched =
     ((case fetched of
         Resolved profile \<Rightarrow> if mounted then [SetUser (Some profile)] else []
       | Rejected _ \<Rightarrow> if mounted then [SetUser (Some current)] else []),
      if \<not> mounted then Stopped else AwaitStoredChallenge)"

text \<open>After \<^verbatim>\<open>await client.getStoredChallenge()\<close>.\<close>

definition hydrate_challenge :: "bool \<Rightarrow> AuthResponse option \<Rightarrow> setter list" where
  "hydrate_challenge mounted storedChallenge =
     (if \<not> mounted then [] else [SetChallenge storedChallenge, SetIsLoading False])"

subsection \<open>handleOAuthCallback and the landing page\<close>

datatype client_call = ExchangeSocialRedirect string | GetProfile

record oauth_result =
  result_user :: "AuthUser option"
  needsChallenge :: bool

text \<open>What one call of \<open>handleOAuthCallback\<close> did: how its promise settled, the setter
  calls it made and the calls it made to the client, in order.\<close>

record oauth_run =
  settled :: "oauth_result outcome"
  setter_calls :: "setter list"
  client_calls :: "client_call list"

text \<open>
  \<open>error\<close> and \<open>exchangeToken\<close> are the two query parameters as
  \<^verbatim>\<open>URLSearchParams.get\<close> returns them; \<open>exchangeSocialRedirect\<close> and \<open>getProfile\<close> are the
  client's answers.
\<close>

definition handleOAuthCallback ::
  "string option \<Rightarrow> string option \<Rightarrow> (string \<Rightarrow> AuthResponse outcome) \<Rightarrow> AuthUser outcome
     \<Rightarrow> oauth_run" where
  "handleOAuthCallback error exchangeToken exchangeSocialRedirect getProfile =
     (if truthy_string error then
        \<lparr>settled = Resolved \<lparr>result_user = None, needsChallenge = False\<rparr>,
         setter_calls = [], client_calls = []\<rparr>
      else
        (case (if truthy_string exchangeToken then exchangeToken else None) of
           Some token \<Rightarrow>
             (case exchangeSocialRedirect token of
                Rejected e \<Rightarrow>
                  \<lparr>settled = Rejected e, setter_calls = [],
                   client_calls = [ExchangeSocialRedirect token]\<rparr>
              | Resolved response \<Rightarrow>
                  if truthy (challengeName response) then
                    \<lparr>settled = Resolved \<lparr>result_user = None, needsChallenge = True\<rparr>,
                     setter_calls = [SetChallenge (Some response)],
                     client_calls = [ExchangeSocialRedirect token]\<rparr>
                  else
                    (case getProfile of
                       Rejected e \<Rightarrow>
                         \<lparr>settled = Rejected e, setter_calls = [],
                          client_calls = [ExchangeSocialRedirect token, GetProfile]\<rparr>
                     | Resolved profileUser \<Rightarrow>
                         \<lparr>settled =
                            Resolved \<lparr>result_user = Some profileUser, needsChallenge = False\<rparr>,
                          setter_calls = [SetUser (Some profileUser)],
                          client_calls = [ExchangeSocialRedirect token, GetProfile]\<rparr>))
         | None \<Rightarrow>
             (case getProfile of
                Rejected e \<Rightarrow>
                  \<lparr>settled = Rejected e, setter_calls = [], client_calls = [GetProfile]\<rparr>
              | Resolved profileUser \<Rightarrow>
                  \<lparr>settled =
                     Resolved \<lparr>result_user = Some profileUser, needsChallenge = False\<rparr>,
                   setter_calls = [SetUser (Some profileUser)],
                   client_calls = [GetProfile]\<rparr>)))"

text \<open>
  The effect of OAuthCallbackPage. \<open>alreadyRan\<close> is \<^verbatim>\<open>ranRef.current\<close>. The result is the new
  latch and the route the page navigates to, if any. The callback of \<^verbatim>\<open>then\<close> tests its
  argument, which is the whole object that \<open>handleOAuthCallback\<close> resolved with.
\<close>

definition OAuthCallbackPage ::
  "bool \<Rightarrow> string option \<Rightarrow> oauth_result outcome \<Rightarrow> bool \<times> string option" where
  "OAuthCallbackPage alreadyRan error callback =
     (if alreadyRan then (alreadyRan, None)
      else if truthy_string error then (True, Some ''/login'')
      else (case callback of
              Resolved result \<Rightarrow>
                (True, Some (if truthy (Some result) then ''/dashboard'' else ''/login''))
            | Rejected _ \<Rightarrow> (True, Some ''/login'')))"

text \<open>ProtectedRoute: what is shown at a protected route.\<close>

datatype shown = Spinner | RedirectToLogin | Children

definition ProtectedRoute :: "SessionState \<Rightarrow> shown" where
  "ProtectedRoute st =
     (if isLoading st then Spinner
      else if \<not> isAuthenticated st then RedirectToLogin
      else Children)"

subsection \<open>ChallengePage: the response that is submitted\<close>

record ChallengeResponse =
  response_type :: AuthChallenge
  response_session :: string
  response_mfa :: "string option"
  response_code :: "string option"

text \<open>
  \<^verbatim>\<open>String.prototype.trim\<close> on the white space and line ends of ASCII. The white
  space beyond ASCII that JavaScript strips as well does not occur: the page keeps only
  digits in the code it holds.
\<close>

definition is_space :: "char \<Rightarrow> bool" where
  "is_space c = (c \<in> set [CHR '' '', CHR 0x09, CHR 0x0A, CHR 0x0B, CHR 0x0C, CHR 0x0D])"

definition trim :: "string \<Rightarrow> string" where
  "trim s = rev (dropWhile is_space (rev (dropWhile is_space s)))"

text \<open>
  The object \<open>handleSubmit\<close> hands to \<open>respondToChallenge\<close>, or \<open>None\<close> when it returns
  before; \<open>pending\<close> is the page's \<^verbatim>\<open>challenge\<close>. \<open>getMFAMethod\<close> is the client library's function. Fields \<open>response_mfa\<close> and
  \<open>response_code\<close> are the keys \<^verbatim>\<open>method\<close> and \<^verbatim>\<open>code\<close> of the object; \<open>None\<close> is a
  key that is absent or undefined.
\<close>

definition handleSubmit ::
  "(AuthResponse \<Rightarrow> string option) \<Rightarrow> AuthResponse option \<Rightarrow> string
     \<Rightarrow> ChallengeResponse option" where
  "handleSubmit getMFAMethod pending code =
     (case pending of
        None \<Rightarrow> None
      | Some ch \<Rightarrow>
          if \<not> truthy_string (session ch) \<or> \<not> truthy (challengeName ch) then None
          else Some \<lparr>response_type = the (challengeName ch),
                     response_session = the (session ch),
                     response_mfa =
                       (if challengeName ch = Some MFA_REQUIRED then getMFAMethod ch
                        else None),
                     response_code = Some (trim code)\<rparr>)"

text \<open>What the page computes for its display.\<close>

definition isTotp :: "(AuthResponse \<Rightarrow> string option) \<Rightarrow> AuthResponse \<Rightarrow> bool" where
  "isTotp getMFAMethod ch =
     ((if challengeName ch = Some MFA_REQUIRED then getMFAMethod ch else None) = Some ''totp'')"

subsection \<open>Concrete inputs\<close>

definition alice :: AuthUser where
  "alice = \<lparr>sub = ''u-1'', email = ''alice@example.com''\<rparr>"

definition totp_challenge :: AuthResponse where
  "totp_challenge = \<lparr>challengeName = Some MFA_REQUIRED, session = Some ''s1'',
     challengeParameters = [(''preferredMethod'', ''totp'')]\<rparr>"

text \<open>A reading of the method from the parameters, to have one to compute with.\<close>

definition preferred_method :: "AuthResponse \<Rightarrow> string option" where
  "preferred_method ch = map_of (challengeParameters ch) ''preferredMethod''"

section \<open>Properties of the one-caller request\<close>

lemma str_includes_append: "str_includes (pre @ needle @ post) needle"
proof (induction pre)
  case Nil
  have "prefix needle (needle @ post)" by simp
  then show ?case by (cases "needle @ post") auto
next
  case (Cons c pre)
  then show ?case by simp
qed

lemma str_includes_iff: "str_includes s needle \<longleftrightarrow> (\<exists>pre post. s = pre @ needle @ post)"
proof
  show "str_includes s needle \<Longrightarrow> \<exists>pre post. s = pre @ needle @ post"
  proof (induction s)
    case Nil
    then show ?case by simp
  next
    case (Cons c cs)
    from Cons.prems have "prefix needle (c # cs) \<or> str_includes cs needle" by simp
    then show ?case
    proof
      assume "prefix needle (c # cs)"
      then obtain post where "c # cs = needle @ post" by (auto simp: prefix_def)
      then have "c # cs = [] @ needle @ post" by simp
      then show ?thesis by blast
    next
      assume "str_includes cs needle"
      with Cons.IH obtain pre post where "cs = pre @ needle @ post" by blast
      then have "c # cs = (c # pre) @ needle @ post" by simp
      then show ?thesis by blast
    qed
  qed
next
  show "\<exists>pre post. s = pre @ needle @ post \<Longrightarrow> str_includes s needle"
    using str_includes_append by blast
qed

lemma request_success:
  assumes "inner_response net (length (inner_calls a)) config = Resolved r"
  shows "request net config a = (Resolved r, a\<lparr>inner_calls := inner_calls a @ [config]\<rparr>)"
  using assms by (simp add: request_def inner_request_def)

lemma request_propagates:
  assumes "inner_response net (length (inner_calls a)) config = Rejected err"
    and "\<not> is401 err \<or> isRefreshEndpoint config \<or> \<not> canRefresh a"
  shows "request net config a = (Rejected err, a\<lparr>inner_calls := inner_calls a @ [config]\<rparr>)"
  using assms by (auto simp: request_def inner_request_def canRefresh_def)

lemma await_doRefresh_eq:
  "await_doRefresh net a =
     (refresh_response net (awaited_refresh a),
      a\<lparr>refreshPromise := None,
        refresh_calls := (if refreshPromise a = None then Suc (refresh_calls a) else refresh_calls a),
        in_flight := removeAll (awaited_refresh a)
          (if refreshPromise a = None then in_flight a @ [refresh_calls a] else in_flight a),
        cleared := Suc (cleared a)\<rparr>)"
  by (cases "refreshPromise a")
    (simp_all add: await_doRefresh_def doRefresh_def refresh_settled_def awaited_refresh_def Let_def)

lemma request_refresh_resolved:
  assumes "inner_response net (length (inner_calls a)) config = Rejected err"
    and "is401 err" and "\<not> isRefreshEndpoint config" and "canRefresh a"
    and "refresh_response net (awaited_refresh a) = Resolved ()"
  shows "fst (request net config a) = inner_response net (Suc (length (inner_calls a))) config"
    and "inner_calls (snd (request net config a)) = inner_calls a @ [config, config]"
    and "refresh_calls (snd (request net config a)) =
           (if refreshPromise a = None then Suc (refresh_calls a) else refresh_calls a)"
    and "refreshPromise (snd (request net config a)) = None"
  using assms
  by (cases "refreshPromise a";
      simp add: request_def inner_request_def canRefresh_def await_doRefresh_eq
        awaited_refresh_def)+

lemma request_refresh_rejected:
  assumes "inner_response net (length (inner_calls a)) config = Rejected err"
    and "is401 err" and "\<not> isRefreshEndpoint config" and "canRefresh a"
    and "refresh_response net (awaited_refresh a) = Rejected e"
  shows "fst (request net config a) = Rejected e"
    and "inner_calls (snd (request net config a)) = inner_calls a @ [config]"
    and "refresh_calls (snd (request net config a)) =
           (if refreshPromise a = None then Suc (refresh_calls a) else refresh_calls a)"
    and "refreshPromise (snd (request net config a)) = None"
  using assms
  by (cases "refreshPromise a";
      simp add: request_def inner_request_def canRefresh_def await_doRefresh_eq
        awaited_refresh_def)+

section \<open>Claims about the one-caller request\<close>

text \<open>
  C2. \<open>request(config)\<close> follows the algorithm of the Refresh Coordinator. A success of
  the inner adapter is returned as it is, and nothing but the one inner call happened. A
  failure that is not a 401, or whose URL is the refresh endpoint, or that arrives when no
  session client is attached, is returned as it is, again after the one inner call and with
  no refresh. For every other 401, once the awaited refresh has resolved, the request is
  issued to the inner adapter one more time with the same \<open>config\<close>; the outcome of this
  second call is the outcome of \<open>request\<close>, whatever it is, and at most the one refresh
  call this caller may have started was made.
\<close>

theorem request_algorithm:
  "(inner_response net (length (inner_calls a)) config = Resolved r \<longrightarrow>
      request net config a = (Resolved r, a\<lparr>inner_calls := inner_calls a @ [config]\<rparr>))
   \<and> (inner_response net (length (inner_calls a)) config = Rejected err
        \<and> (\<not> is401 err \<or> isRefreshEndpoint config \<or> \<not> canRefresh a) \<longrightarrow>
      request net config a = (Rejected err, a\<lparr>inner_calls := inner_calls a @ [config]\<rparr>))
   \<and> (inner_response net (length (inner_calls a)) config = Rejected err
        \<and> is401 err \<and> \<not> isRefreshEndpoint config \<and> canRefresh a
        \<and> refresh_response net (awaited_refresh a) = Resolved () \<longrightarrow>
      fst (request net config a) = inner_response net (Suc (length (inner_calls a))) config
      \<and> inner_calls (snd (request net config a)) = inner_calls a @ [config, config]
      \<and> refresh_calls (snd (request net config a)) =
          (if refreshPromise a = None then Suc (refresh_calls a) else refresh_calls a))"
  using request_success [of net a config r] request_propagates [of net a config err]
    request_refresh_resolved [of net a config err]
  by blast

theorem request_algorithm_witness:
  "request net_ok profile_request wired_adapter =
     (Resolved ''profile'', wired_adapter\<lparr>inner_calls := [profile_request]\<rparr>)
   \<and> \<not> is401 (NAuthClientError (Some 403))
   \<and> request net_forbidden profile_request wired_adapter =
     (Rejected (NAuthClientError (Some 403)), wired_adapter\<lparr>inner_calls := [profile_request]\<rparr>)
   \<and> \<not> canRefresh new_adapter
   \<and> request net_always_401 profile_request new_adapter =
     (Rejected err401, new_adapter\<lparr>inner_calls := [profile_request]\<rparr>)
   \<and> is401 err401 \<and> \<not> isRefreshEndpoint profile_request \<and> canRefresh wired_adapter
   \<and> fst (request net_always_401 profile_request wired_adapter) = Rejected err401
   \<and> inner_calls (snd (request net_always_401 profile_request wired_adapter)) =
       [profile_request, profile_request]
   \<and> refresh_calls (snd (request net_always_401 profile_request wired_adapter)) = 1"
proof -
  have facts: "is401 err401" "\<not> is401 (NAuthClientError (Some 403))"
    "\<not> isRefreshEndpoint profile_request" "canRefresh wired_adapter"
    "inner_calls wired_adapter = []" "refreshPromise wired_adapter = None"
    "refresh_calls wired_adapter = 0" "awaited_refresh wired_adapter = 0"
    "\<not> canRefresh new_adapter" "inner_calls new_adapter = []"
    by (simp_all add: is401_def err401_def isRefreshEndpoint_def profile_request_def
        canRefresh_def wired_adapter_def setClient_def new_adapter_def awaited_refresh_def)
  show ?thesis
    using request_algorithm [of net_ok wired_adapter profile_request "''profile''"]
      request_algorithm [of net_forbidden wired_adapter profile_request _
        "NAuthClientError (Some 403)"]
      request_algorithm [of net_always_401 new_adapter profile_request _ err401]
      request_algorithm [of net_always_401 wired_adapter profile_request _ err401]
    by (simp add: facts net_ok_def net_forbidden_def net_always_401_def)
qed

text \<open>
  C1, as the code has it. When the first attempt fails with a 401 that qualifies for a
  refresh and the awaited refresh is rejected, \<^verbatim>\<open>await this.doRefresh()\<close> throws: the
  caller gets the rejection of the refresh, the request is not issued again (the inner
  adapter has been called once, for the first attempt), and the stored promise has been
  cleared. This holds for the caller that started the refresh and for a caller that found
  a promise stored and waited for it.
\<close>

theorem refresh_rejection_propagates:
  assumes "inner_response net (length (inner_calls a)) config = Rejected err"
    and "is401 err" and "\<not> isRefreshEndpoint config" and "canRefresh a"
    and "refresh_response net (awaited_refresh a) = Rejected e"
  shows "fst (request net config a) = Rejected e
    \<and> inner_calls (snd (request net config a)) = inner_calls a @ [config]
    \<and> refreshPromise (snd (request net config a)) = None"
  using request_refresh_rejected [OF assms] by simp

theorem refresh_rejection_propagates_witness:
  "is401 err401 \<and> \<not> isRefreshEndpoint profile_request \<and> canRefresh wired_adapter
   \<and> fst (request net_refresh_fails profile_request wired_adapter) = Rejected session_expired
   \<and> inner_calls (snd (request net_refresh_fails profile_request wired_adapter)) =
       [profile_request]
   \<and> refreshPromise (snd (request net_refresh_fails profile_request wired_adapter)) = None"
proof -
  have facts: "is401 err401" "\<not> isRefreshEndpoint profile_request" "canRefresh wired_adapter"
    "inner_calls wired_adapter = []" "awaited_refresh wired_adapter = 0"
    by (simp_all add: is401_def err401_def isRefreshEndpoint_def profile_request_def
        canRefresh_def wired_adapter_def setClient_def new_adapter_def awaited_refresh_def)
  show ?thesis
    using refresh_rejection_propagates [of net_refresh_fails wired_adapter profile_request
        err401 session_expired]
    by (simp add: facts net_refresh_fails_def)
qed

text \<open>
  The claim C1 as the specification words it fails: with a session that has expired, the
  first attempt gets a 401 that qualifies for a refresh, the refresh is rejected, and the
  inner adapter has been called once only. What the caller gets is not what a second call
  of the inner adapter would have given.
\<close>

theorem retry_after_rejected_refresh_counterexample:
  "inner_response net_refresh_fails 0 profile_request = Rejected err401
   \<and> is401 err401 \<and> \<not> isRefreshEndpoint profile_request \<and> canRefresh wired_adapter
   \<and> refresh_response net_refresh_fails 0 = Rejected session_expired
   \<and> inner_calls (snd (request net_refresh_fails profile_request wired_adapter)) =
       [profile_request]
   \<and> fst (request net_refresh_fails profile_request wired_adapter) \<noteq>
       inner_response net_refresh_fails 1 profile_request"
  by (simp add: request_def inner_request_def await_doRefresh_def doRefresh_def
      refresh_settled_def net_refresh_fails_def is401_def err401_def isRefreshEndpoint_def
      profile_request_def canRefresh_def wired_adapter_def setClient_def new_adapter_def
      session_expired_def)

text \<open>
  C10. The exclusion of the refresh endpoint is a substring test. Whenever the URL has
  \<^verbatim>\<open>/refresh\<close> anywhere in it, a failure of the first attempt (a 401 included) is
  returned as it is: the inner adapter was called once, no refresh was started, nothing
  else changed.
\<close>

theorem refresh_substring_never_refreshes:
  assumes "url config = pre @ ''/refresh'' @ post"
    and "inner_response net (length (inner_calls a)) config = Rejected err"
  shows "request net config a = (Rejected err, a\<lparr>inner_calls := inner_calls a @ [config]\<rparr>)
    \<and> refresh_calls (snd (request net config a)) = refresh_calls a
    \<and> length (inner_calls (snd (request net config a))) = Suc (length (inner_calls a))"
proof -
  have "isRefreshEndpoint config"
    unfolding isRefreshEndpoint_def using assms(1) str_includes_iff by metis
  then show ?thesis
    using request_propagates [of net a config err] assms(2) by simp
qed

theorem refresh_substring_never_refreshes_witness:
  "is401 err401
   \<and> url settings_request = ''/users'' @ ''/refresh'' @ ''-preferences''
   \<and> request net_always_401 settings_request wired_adapter =
       (Rejected err401, wired_adapter\<lparr>inner_calls := [settings_request]\<rparr>)
   \<and> refresh_calls (snd (request net_always_401 settings_request wired_adapter)) = 0"
proof -
  have facts: "url settings_request = ''/users'' @ ''/refresh'' @ ''-preferences''"
    "inner_calls wired_adapter = []" "refresh_calls wired_adapter = 0" "is401 err401"
    by (simp_all add: settings_request_def wired_adapter_def setClient_def new_adapter_def
        is401_def err401_def)
  show ?thesis
    using refresh_substring_never_refreshes [of settings_request "''/users''"
        "''-preferences''" net_always_401 wired_adapter err401]
    by (simp add: facts net_always_401_def)
qed

section \<open>Claims about the Session Controller\<close>

lemma oauth_challenge_sets_challenge_only:
  assumes "token \<noteq> []" and "challengeName response \<noteq> None"
    and "exchangeSocialRedirect token = Resolved response"
  shows "handleOAuthCallback None (Some token) exchangeSocialRedirect getProfile =
    \<lparr>settled = Resolved \<lparr>result_user = None, needsChallenge = True\<rparr>,
     setter_calls = [SetChallenge (Some response)],
     client_calls = [ExchangeSocialRedirect token]\<rparr>"
  using assms by (simp add: handleOAuthCallback_def truthy_string_def truthy_def)

lemma OAuthCallbackPage_resolved:
  "OAuthCallbackPage False None (Resolved result) = (True, Some ''/dashboard'')"
  by (simp add: OAuthCallbackPage_def truthy_string_def truthy_def)

text \<open>
  C4, at a landing with the exchange token \<^verbatim>\<open>x1\<close> whose exchange resolves with a pending
  MFA challenge. \<open>handleOAuthCallback\<close> does what the claim says: it stores the response as
  the challenge, asks the client for the exchange only (no profile), touches no user and
  resolves with no user and \<open>needsChallenge\<close>. The page then tests the object it got, not
  its user, and navigates to \<^verbatim>\<open>/dashboard\<close>, the view of a signed-in user; a route
  guarded by ProtectedRoute answers with the redirect to the login page, and the
  challenge page is not reached.
\<close>

theorem oauth_challenge_lands_on_dashboard:
  "handleOAuthCallback None (Some ''x1'') (\<lambda>token. Resolved totp_challenge) (Resolved alice) =
     \<lparr>settled = Resolved \<lparr>result_user = None, needsChallenge = True\<rparr>,
      setter_calls = [SetChallenge (Some totp_challenge)],
      client_calls = [ExchangeSocialRedirect ''x1'']\<rparr>
   \<and> OAuthCallbackPage False None
       (settled (handleOAuthCallback None (Some ''x1'') (\<lambda>token. Resolved totp_challenge)
          (Resolved alice))) = (True, Some ''/dashboard'')
   \<and> ProtectedRoute (render [SetChallenge (Some totp_challenge)]
       (initial_state\<lparr>isLoading := False\<rparr>)) = RedirectToLogin"
  by (simp add: handleOAuthCallback_def OAuthCallbackPage_def truthy_string_def truthy_def
      totp_challenge_def ProtectedRoute_def render_def initial_state_def isAuthenticated_def)

text \<open>
  C5, as the code has it. For a pending MFA_REQUIRED challenge with a session token,
  the response handed to \<open>respondToChallenge\<close> has the kind and the token of the challenge,
  its \<^verbatim>\<open>method\<close> is what \<open>getMFAMethod\<close> derives from the challenge, and its \<^verbatim>\<open>code\<close> is
  always there: the trimmed text of the input, whatever the method is.
\<close>

theorem mfa_response_has_method_and_code:
  assumes "challengeName ch = Some MFA_REQUIRED" and "session ch = Some s" and "s \<noteq> []"
  shows "handleSubmit getMFAMethod (Some ch) code =
    Some \<lparr>response_type = MFA_REQUIRED, response_session = s,
          response_mfa = getMFAMethod ch, response_code = Some (trim code)\<rparr>"
  using assms by (simp add: handleSubmit_def truthy_string_def truthy_def)

theorem mfa_response_has_method_and_code_witness:
  "challengeName totp_challenge = Some MFA_REQUIRED \<and> session totp_challenge = Some ''s1''
   \<and> handleSubmit preferred_method (Some totp_challenge) '' 123456 '' =
       Some \<lparr>response_type = MFA_REQUIRED, response_session = ''s1'',
             response_mfa = Some ''totp'', response_code = Some ''123456''\<rparr>"
proof -
  have facts: "challengeName totp_challenge = Some MFA_REQUIRED"
    "session totp_challenge = Some ''s1''" "preferred_method totp_challenge = Some ''totp''"
    "trim '' 123456 '' = ''123456''"
    by (simp_all add: totp_challenge_def preferred_method_def trim_def is_space_def)
  show ?thesis
    using mfa_response_has_method_and_code [of totp_challenge "''s1''" preferred_method
        "'' 123456 ''"]
    by (simp add: facts)
qed

text \<open>
  The claim C5 as the specification words it fails: for an MFA_REQUIRED challenge whose
  method is TOTP, the submitted response does carry a \<^verbatim>\<open>code\<close>.
\<close>

theorem totp_response_code_counterexample:
  "isTotp preferred_method totp_challenge
   \<and> response_mfa (the (handleSubmit preferred_method (Some totp_challenge) ''123456'')) =
       Some ''totp''
   \<and> response_code (the (handleSubmit preferred_method (Some totp_challenge) ''123456'')) =
       Some ''123456''"
  by (simp add: handleSubmit_def isTotp_def truthy_string_def truthy_def totp_challenge_def
      preferred_method_def trim_def is_space_def)

text \<open>
  C6. When \<^verbatim>\<open>auth:success\<close> fires while the provider is mounted and the client's cache
  holds a user \<open>u\<close>, the handler calls \<open>setChallenge(null)\<close> first and \<open>setUser(u)\<close> next, and
  starts the profile fetch. The one render of this run shows no challenge and the user
  \<open>u\<close>, so \<open>isAuthenticated\<close> holds at once. When the fetch resolves later, the render
  of its callback shows the fetched profile as the user.
\<close>

theorem auth_success_sets_user_at_once:
  "on_auth_success True (Some u) = ([SetChallenge None, SetUser (Some u)], True)
   \<and> observed (fst (on_auth_success True (Some u))) st = [st\<lparr>challenge := None, user := Some u\<rparr>]
   \<and> isAuthenticated (render (fst (on_auth_success True (Some u))) st)
   \<and> render (on_auth_success_profile True (Resolved profile) cached)
         (render (fst (on_auth_success True (Some u))) st) =
       st\<lparr>challenge := None, user := Some profile\<rparr>"
  by (simp add: on_auth_success_def on_auth_success_profile_def observed_def render_def
      isAuthenticated_def truthy_def)

text \<open>
  C7. When \<^verbatim>\<open>auth:logout\<close> or \<^verbatim>\<open>auth:session_expired\<close> fires while the provider is
  mounted, the handler calls \<open>setUser(null)\<close> and \<open>setChallenge(null)\<close> in one run. The
  consumers see exactly one new state because of it, and in that state both the user and
  the challenge are null; the state with only one of them cleared is never rendered.
\<close>

theorem logout_clears_user_and_challenge_together:
  "observed (on_auth_logout True) st = [st\<lparr>user := None, challenge := None\<rparr>]
   \<and> observed (on_auth_session_expired True) st = [st\<lparr>user := None, challenge := None\<rparr>]
   \<and> list_all (\<lambda>seen. user seen = None \<and> challenge seen = None)
         (observed (on_auth_logout True) st @ observed (on_auth_session_expired True) st)"
  by (simp add: on_auth_logout_def on_auth_session_expired_def observed_def render_def)

text \<open>
  C8. A profile fetch that fails in the background never sets the user to null while a
  cached user exists. During hydration, with the cached user \<open>u\<close> read after
  \<open>initialize\<close>, the failure sets the user to \<open>u\<close>. After \<^verbatim>\<open>auth:success\<close>, with the cached
  user \<open>u\<close> in the client when the fetch fails, the failure sets the user to \<open>u\<close>; when \<open>u\<close>
  is the user the handler had set at the event, the failure changes nothing.
\<close>

theorem profile_failure_keeps_cached_user:
  "hydrate_initialized True (Some u) = ([], AwaitProfile u)
   \<and> fst (hydrate_profile True u (Rejected e)) = [SetUser (Some u)]
   \<and> user (render (fst (hydrate_profile True u (Rejected e))) st) = Some u
   \<and> on_auth_success_profile True (Rejected e) (Some u) = [SetUser (Some u)]
   \<and> user (render (on_auth_success_profile True (Rejected e) (Some u)) st) = Some u
   \<and> render (on_auth_success_profile True (Rejected e) (Some u))
         (render (fst (on_auth_success True (Some u))) st) =
       render (fst (on_auth_success True (Some u))) st"
  by (simp add: hydrate_initialized_def hydrate_profile_def on_auth_success_profile_def
      on_auth_success_def render_def truthy_def)

section \<open>Properties of the event loop\<close>

lemma list_all_update:
  "list_all P xs \<Longrightarrow> P x \<Longrightarrow> list_all P (xs[i := x])"
  by (induction xs arbitrary: i) (auto split: nat.splits)

lemma awaits_resume [simp]:
  "awaits (phase w) = None \<or> awaits (phase w) = Some h \<Longrightarrow>
     awaits (phase (resume h settlement w)) = None"
  by (cases "phase w"; cases settlement) (auto simp: resume_def)

lemma waiters_update [simp]:
  "single_flight (c\<lparr>waiters := q\<rparr>) = single_flight c"
  "counted (c\<lparr>waiters := q\<rparr>) = counted c"
  by (simp_all add: single_flight_def counted_def)

lemma single_flight_call:
  "single_flight c \<Longrightarrow> single_flight (call_request config c)"
  by (auto simp: single_flight_def call_request_def split: option.splits)

lemma single_flight_set_phase:
  assumes "single_flight c"
    and "awaits p = None \<or> awaits p = refreshPromise c"
  shows "single_flight (set_phase i p c)"
  using assms by (auto simp: single_flight_def set_phase_def list_all_update split: option.splits)

lemma single_flight_doRefresh:
  assumes "single_flight c" and "doRefresh c = (h, c1)"
  shows "single_flight c1 \<and> refreshPromise c1 = Some h"
proof (cases "refreshPromise c")
  case None
  with assms show ?thesis
    by (auto simp: single_flight_def doRefresh_def Let_def list_all_iff)
next
  case (Some h')
  with assms show ?thesis by (auto simp: doRefresh_def)
qed

lemma single_flight_first_attempt:
  assumes "single_flight c"
  shows "single_flight (first_attempt_settled i settlement c)"
proof (cases settlement)
  case (Resolved r)
  then show ?thesis using assms by (simp add: first_attempt_settled_def single_flight_set_phase)
next
  case (Rejected err)
  show ?thesis
  proof (cases "is401 err \<and> \<not> isRefreshEndpoint (request_config (invocations c ! i)) \<and> canRefresh c")
    case True
    obtain h c1 where d: "doRefresh c = (h, c1)" by (cases "doRefresh c")
    from single_flight_doRefresh [OF assms d] have "single_flight (set_phase i (AwaitRefresh h) c1)"
      by (simp add: single_flight_set_phase)
    with True Rejected d show ?thesis by (simp add: first_attempt_settled_def)
  next
    case False
    with Rejected assms show ?thesis
      by (auto simp: first_attempt_settled_def single_flight_set_phase)
  qed
qed

lemma single_flight_refresh_settles:
  assumes "single_flight c" and "h \<in> set (in_flight c)"
  shows "single_flight (refresh_settles h settlement c)"
    and "refreshPromise (refresh_settles h settlement c) = None"
    and "in_flight (refresh_settles h settlement c) = []"
    and "cleared (refresh_settles h settlement c) = Suc (cleared c)"
    and "refresh_calls (refresh_settles h settlement c) = refresh_calls c"
proof -
  from assms have rp: "refreshPromise c = Some h" and fl: "in_flight c = [h]"
    by (auto simp: single_flight_def split: option.splits)
  show "single_flight (refresh_settles h settlement c)"
    using assms(1) fl rp
    by (simp add: single_flight_def refresh_settles_def refresh_settled_def list_all_iff)
  show "refreshPromise (refresh_settles h settlement c) = None"
    "in_flight (refresh_settles h settlement c) = []"
    "cleared (refresh_settles h settlement c) = Suc (cleared c)"
    "refresh_calls (refresh_settles h settlement c) = refresh_calls c"
    using fl by (simp_all add: refresh_settles_def refresh_settled_def)
qed

lemma single_flight_step:
  assumes "single_flight c" and "step e c = Some c'"
  shows "single_flight c'"
proof (cases e)
  case (Call config)
  with assms show ?thesis by (auto simp: single_flight_call)
next
  case (InnerSettles i settlement)
  with assms show ?thesis
    by (auto simp: single_flight_first_attempt retry_settled_def single_flight_set_phase
        split: if_splits phase.splits)
next
  case (RefreshSettles h settlement)
  with assms show ?thesis
    by (auto simp: single_flight_refresh_settles split: if_splits)
qed

lemma single_flight_run:
  "single_flight c \<Longrightarrow> run es c = Some c' \<Longrightarrow> single_flight c'"
proof (induction es arbitrary: c)
  case Nil
  then show ?case by simp
next
  case (Cons e es)
  then show ?case by (auto split: option.splits dest: single_flight_step)
qed

lemma single_flight_idle: "single_flight idle"
  by (simp add: single_flight_def idle_def)


lemma doRefresh_keeps [simp]:
  "client (snd (doRefresh c)) = client c"
  "cleared (snd (doRefresh c)) = cleared c"
  "invocations (snd (doRefresh c)) = invocations c"
  "inner_calls (snd (doRefresh c)) = inner_calls c"
  by (simp_all add: doRefresh_def Let_def split: option.splits)

lemma set_phase_keeps [simp]:
  "client (set_phase i p c) = client c"
  "cleared (set_phase i p c) = cleared c"
  "refreshPromise (set_phase i p c) = refreshPromise c"
  "in_flight (set_phase i p c) = in_flight c"
  "refresh_calls (set_phase i p c) = refresh_calls c"
  "inner_calls (set_phase i p c) = inner_calls c"
  "length (invocations (set_phase i p c)) = length (invocations c)"
  by (simp_all add: set_phase_def)

lemma first_attempt_keeps [simp]:
  "client (first_attempt_settled i settlement c) = client c"
  "cleared (first_attempt_settled i settlement c) = cleared c"
  "length (invocations (first_attempt_settled i settlement c)) = length (invocations c)"
  "inner_calls (first_attempt_settled i settlement c) = inner_calls c"
  by (simp_all add: first_attempt_settled_def split: outcome.splits prod.splits)
    (metis doRefresh_keeps snd_conv)+

lemma step_client: "step e c = Some c' \<Longrightarrow> client c' = client c"
  by (cases e)
    (auto simp: call_request_def retry_settled_def refresh_settles_def refresh_settled_def
      split: if_splits phase.splits)

lemma run_client: "run es c = Some c' \<Longrightarrow> client c' = client c"
  by (induction es arbitrary: c) (auto split: option.splits dest: step_client)

lemma step_cleared:
  "\<not> is_refresh_settles e \<Longrightarrow> step e c = Some c' \<Longrightarrow> cleared c' = cleared c"
  by (cases e) (auto simp: call_request_def retry_settled_def split: if_splits phase.splits)

lemma run_cleared:
  "list_all (\<lambda>e. \<not> is_refresh_settles e) es \<Longrightarrow> run es c = Some c' \<Longrightarrow> cleared c' = cleared c"
  by (induction es arbitrary: c) (auto split: option.splits dest: step_cleared)

lemma counted_set_phase:
  assumes "counted c" and "i < length (invocations c)"
    and "attempts (invocations c ! i) \<in> set (attempts_allowed p)"
  shows "counted (set_phase i p c)"
  using assms
  by (auto simp: counted_def set_phase_def list_all_iff
      dest!: subsetD [OF set_update_subset_insert])

lemma counted_first_attempt:
  assumes "counted c" and "i < length (invocations c)"
    and "phase (invocations c ! i) = AwaitInner"
  shows "counted (first_attempt_settled i settlement c)"
proof -
  from assms have one: "attempts (invocations c ! i) = Suc 0"
    by (auto simp: counted_def list_all_length)
  obtain h c1 where d: "doRefresh c = (h, c1)" by (cases "doRefresh c")
  then have same: "invocations c1 = invocations c" using doRefresh_keeps(3) [of c] by simp
  with assms(1) have "counted c1" by (simp add: counted_def)
  with assms(2) one same have "counted (set_phase i (AwaitRefresh h) c1)"
    by (simp add: counted_set_phase)
  with assms(1,2) one d show ?thesis
    by (cases settlement) (simp_all add: first_attempt_settled_def counted_set_phase)
qed

lemma counted_resume:
  "attempts w \<in> set (attempts_allowed (phase w)) \<Longrightarrow>
   attempts (resume h settlement w) \<in> set (attempts_allowed (phase (resume h settlement w)))"
  by (cases "phase w"; cases settlement) (auto simp: resume_def)

lemma counted_step:
  assumes "counted c" and "step e c = Some c'"
  shows "counted c'"
proof (cases e)
  case (Call config)
  with assms show ?thesis by (auto simp: counted_def call_request_def)
next
  case (InnerSettles i settlement)
  show ?thesis
  proof (cases "phase (invocations c ! i)")
    case AwaitInner
    with assms InnerSettles show ?thesis
      by (auto simp: counted_first_attempt split: if_splits)
  next
    case AwaitRetry
    with assms InnerSettles have i: "i < length (invocations c)"
      and c': "c' = set_phase i (Settled settlement) c"
      by (auto simp: retry_settled_def split: if_splits)
    with assms(1) AwaitRetry have "attempts (invocations c ! i) = 2"
      by (auto simp: counted_def list_all_length)
    with assms(1) i c' show ?thesis by (simp add: counted_set_phase)
  qed (use assms InnerSettles in \<open>auto split: if_splits\<close>)
next
  case (RefreshSettles h settlement)
  with assms show ?thesis
    by (auto simp: counted_def refresh_settles_def refresh_settled_def list_all_iff
        counted_resume split: if_splits)
qed

lemma counted_run: "counted c \<Longrightarrow> run es c = Some c' \<Longrightarrow> counted c'"
proof (induction es arbitrary: c)
  case Nil
  then show ?case by simp
next
  case (Cons e es)
  then show ?case by (auto split: option.splits dest: counted_step)
qed

lemma counted_idle: "counted idle"
  by (simp add: counted_def idle_def)

lemma waiting_iff:
  "i \<in> set (waiting c) \<longleftrightarrow> i < length (invocations c) \<and> awaits (phase (invocations c ! i)) \<noteq> None"
  by (auto simp: waiting_def)

lemma awaits_Some_iff: "awaits p = Some h \<longleftrightarrow> p = AwaitRefresh h"
  by (cases p) auto

lemma waiting_phase:
  "i \<in> set (waiting c) \<longleftrightarrow>
     i < length (invocations c) \<and> (\<exists>h. phase (invocations c ! i) = AwaitRefresh h)"
proof -
  have "awaits p \<noteq> None \<longleftrightarrow> (\<exists>h. p = AwaitRefresh h)" for p :: "'a phase"
    by (cases p) auto
  then show ?thesis by (simp add: waiting_def)
qed

lemma phase_set_phase:
  "j < length (invocations c) \<Longrightarrow>
     phase (invocations (set_phase i p c) ! j) = (if j = i then p else phase (invocations c ! j))"
  by (cases "j = i") (simp_all add: set_phase_def)

lemma queued_set_phase_settled:
  assumes "queued c" and "awaits (phase (invocations c ! i)) = None"
  shows "queued (set_phase i (Settled settlement) c)"
proof -
  have "set (waiting (set_phase i (Settled settlement) c)) = set (waiting c)"
    using assms(2) by (auto simp: waiting_phase phase_set_phase split: if_splits)
  with assms(1) show ?thesis by (simp add: queued_def set_phase_def)
qed

lemma queued_first_attempt:
  assumes "queued c" and "i < length (invocations c)"
    and "phase (invocations c ! i) = AwaitInner"
  shows "queued (first_attempt_settled i settlement c)"
proof -
  from assms(3) have quiet: "awaits (phase (invocations c ! i)) = None" by simp
  obtain h c1 where d: "doRefresh c = (h, c1)" by (cases "doRefresh c")
  then have same: "invocations c1 = invocations c" "waiters c1 = waiters c"
    by (auto simp: doRefresh_def Let_def split: option.splits)
  have fresh: "i \<notin> set (waiters c)"
    using assms(1) quiet by (simp add: queued_def waiting_iff)
  have "set (waiting ((set_phase i (AwaitRefresh h) c1)\<lparr>waiters := waiters c1 @ [i]\<rparr>)) =
      insert i (set (waiting c))"
    using assms(2) same by (auto simp: waiting_phase phase_set_phase split: if_splits)
  with assms(1) fresh same
  have "queued ((set_phase i (AwaitRefresh h) c1)\<lparr>waiters := waiters c1 @ [i]\<rparr>)"
    by (simp add: queued_def set_phase_def)
  with assms(1) quiet d show ?thesis
    by (cases settlement) (simp_all add: first_attempt_settled_def queued_set_phase_settled)
qed

lemma queued_refresh_settles:
  assumes "queued c"
  shows "queued (refresh_settles h settlement c)"
proof -
  have "set (waiting (refresh_settles h settlement c)) =
      {i \<in> set (waiting c). phase (invocations c ! i) \<noteq> AwaitRefresh h}"
    by (auto simp: waiting_phase refresh_settles_def refresh_settled_def resume_def
        split: if_splits outcome.splits)
  with assms show ?thesis
    by (auto simp: queued_def refresh_settles_def refresh_settled_def)
qed

lemma queued_step:
  assumes "queued c" and "step e c = Some c'"
  shows "queued c'"
proof (cases e)
  case (Call config)
  have "set (waiting (call_request config c)) = set (waiting c)"
    by (auto simp: waiting_phase call_request_def nth_append less_Suc_eq split: if_splits)
  with assms Call show ?thesis by (auto simp: queued_def call_request_def)
next
  case (InnerSettles i settlement)
  show ?thesis
  proof (cases "phase (invocations c ! i)")
    case AwaitInner
    with assms InnerSettles show ?thesis
      by (auto simp: queued_first_attempt split: if_splits)
  next
    case AwaitRetry
    with assms InnerSettles show ?thesis
      by (auto simp: retry_settled_def queued_set_phase_settled split: if_splits)
  qed (use assms InnerSettles in \<open>auto split: if_splits\<close>)
next
  case (RefreshSettles h settlement)
  with assms show ?thesis by (auto simp: queued_refresh_settles split: if_splits)
qed

lemma queued_run: "queued c \<Longrightarrow> run es c = Some c' \<Longrightarrow> queued c'"
proof (induction es arbitrary: c)
  case Nil
  then show ?case by simp
next
  case (Cons e es)
  then show ?case by (auto split: option.splits dest: queued_step)
qed

lemma step_waiters:
  assumes "\<not> is_refresh_settles e" and "step e c = Some c'"
  shows "waiters c' = waiters c @ qualifying e c"
proof (cases e)
  case (Call config)
  with assms show ?thesis by (auto simp: call_request_def)
next
  case (InnerSettles i settlement)
  show ?thesis
  proof (cases "phase (invocations c ! i)")
    case AwaitInner
    obtain h c1 where d: "doRefresh c = (h, c1)" by (cases "doRefresh c")
    then have same: "waiters c1 = waiters c"
      by (auto simp: doRefresh_def Let_def split: option.splits)
    with assms InnerSettles AwaitInner d show ?thesis
      by (cases settlement)
        (auto simp: first_attempt_settled_def set_phase_def split: if_splits)
  next
    case AwaitRetry
    with assms InnerSettles show ?thesis
      by (cases settlement) (auto simp: retry_settled_def set_phase_def split: if_splits)
  qed (use assms InnerSettles in \<open>auto split: if_splits\<close>)
next
  case (RefreshSettles h settlement)
  with assms show ?thesis by simp
qed

lemma run_waiters:
  "list_all (\<lambda>e. \<not> is_refresh_settles e) es \<Longrightarrow> run es c = Some c' \<Longrightarrow>
   waiters c' = waiters c @ refused es c"
proof (induction es arbitrary: c)
  case Nil
  then show ?case by simp
next
  case (Cons e es)
  from Cons.prems obtain c1 where s: "step e c = Some c1" and r: "run es c1 = Some c'"
    by (auto split: option.splits)
  from Cons.prems(1) have q: "\<not> is_refresh_settles e" "list_all (\<lambda>e. \<not> is_refresh_settles e) es"
    by simp_all
  from step_waiters [OF q(1) s] Cons.IH [OF q(2) r] s show ?case by simp
qed


lemma run_idle_queued: "run es idle = Some c \<Longrightarrow> queued c"
proof -
  have "queued idle" by (simp add: queued_def waiting_def idle_def)
  then show "run es idle = Some c \<Longrightarrow> queued c" by (rule queued_run)
qed

lemma run_idle_single_flight: "run es idle = Some c \<Longrightarrow> single_flight c"
  using single_flight_run [OF single_flight_idle] .

lemma run_idle_canRefresh: "run es idle = Some c \<Longrightarrow> canRefresh c"
  using run_client [of es idle c] by (simp add: canRefresh_def idle_def)

lemma run_idle_counted: "run es idle = Some c \<Longrightarrow> counted c"
  using counted_run [OF counted_idle] .

lemma fresh_refresh:
  assumes "refreshPromise c = None" and "i < length (invocations c)"
    and "is401 err" and "\<not> isRefreshEndpoint (request_config (invocations c ! i))"
    and "canRefresh c" and "single_flight c"
  shows "refreshPromise (first_attempt_settled i (Rejected err) c) = Some (refresh_calls c)"
    and "in_flight (first_attempt_settled i (Rejected err) c) = [refresh_calls c]"
    and "refresh_calls (first_attempt_settled i (Rejected err) c) = Suc (refresh_calls c)"
    and "phase (invocations (first_attempt_settled i (Rejected err) c) ! i) =
           AwaitRefresh (refresh_calls c)"
  using assms
  by (simp_all add: first_attempt_settled_def doRefresh_def Let_def set_phase_def
      single_flight_def)

lemma step_keeps_retried:
  assumes "step e c = Some c'" and "i < length (invocations c)"
    and "awaits (phase (invocations c ! i)) = None" and "phase (invocations c ! i) \<noteq> AwaitInner"
  shows "i < length (invocations c') \<and> awaits (phase (invocations c' ! i)) = None
    \<and> phase (invocations c' ! i) \<noteq> AwaitInner
    \<and> attempts (invocations c' ! i) = attempts (invocations c ! i)"
proof (cases e)
  case (Call config)
  with assms show ?thesis by (auto simp: call_request_def nth_append)
next
  case (InnerSettles j settlement)
  show ?thesis
  proof (cases "phase (invocations c ! j)")
    case AwaitInner
    with assms(4) have ne: "j \<noteq> i" by auto
    obtain h c1 where d: "doRefresh c = (h, c1)" by (cases "doRefresh c")
    then have "invocations c1 = invocations c" using doRefresh_keeps(3) [of c] by simp
    with assms InnerSettles AwaitInner ne d show ?thesis
      by (auto simp: first_attempt_settled_def set_phase_def split: if_splits outcome.splits)
  next
    case AwaitRetry
    with assms InnerSettles show ?thesis
      by (cases "j = i") (auto simp: retry_settled_def set_phase_def split: if_splits)
  qed (use assms InnerSettles in \<open>auto split: if_splits\<close>)
next
  case (RefreshSettles h settlement)
  with assms show ?thesis
    by (auto simp: refresh_settles_def refresh_settled_def resume_def awaits_Some_iff
        split: if_splits)
qed

lemma run_keeps_retried:
  assumes "run es c = Some c'" and "i < length (invocations c)"
    and "awaits (phase (invocations c ! i)) = None" and "phase (invocations c ! i) \<noteq> AwaitInner"
  shows "attempts (invocations c' ! i) = attempts (invocations c ! i)"
  using assms
proof (induction es arbitrary: c)
  case Nil
  then show ?case by simp
next
  case (Cons e es)
  from Cons.prems(1) obtain c1 where s: "step e c = Some c1" and r: "run es c1 = Some c'"
    by (auto split: option.splits)
  from step_keeps_retried [OF s Cons.prems(2,3,4)] Cons.IH [OF r] show ?case by simp
qed

text \<open>
  The one-caller \<open>request\<close> is the event loop with one caller: when no refresh is in
  flight, the events of \<open>alone\<close> take the adapter to the state that \<open>request\<close> returns,
  with one more invocation, settled with the outcome that \<open>request\<close> returns.
\<close>

lemma resume_idle:
  assumes "list_all (\<lambda>w. awaits (phase w) = None) ws"
  shows "map (resume h settlement) ws = ws"
proof -
  have "phase w \<noteq> AwaitRefresh h" if "w \<in> set ws" for w
    using assms that by (auto simp: list_all_iff)
  then show ?thesis by (auto simp: resume_def map_idI)
qed

lemma request_alone:
  assumes "single_flight c" and "queued c" and "refreshPromise c = None"
  shows "run (alone net config c) c =
    Some ((snd (request net config c))
      \<lparr>invocations := invocations c @
         [\<lparr>request_config = config, phase = Settled (fst (request net config c)),
           attempts = length (inner_calls (snd (request net config c))) - length (inner_calls c)\<rparr>]\<rparr>)"
proof -
  from assms have quiet: "list_all (\<lambda>w. awaits (phase w) = None) (invocations c)"
    and nothing: "in_flight c = []"
    by (auto simp: single_flight_def list_all_iff)
  then have "waiting c = []"
    by (auto simp: waiting_def filter_empty_conv list_all_length)
  with assms(2) have nobody: "waiters c = []" by (simp add: queued_def)
  note idle = resume_idle [OF quiet]
  show ?thesis
  proof (cases "inner_response net (length (inner_calls c)) config")
    case (Resolved r)
    then show ?thesis
      by (simp add: alone_def request_def inner_request_def call_request_def
          first_attempt_settled_def set_phase_def)
  next
    case (Rejected err)
    show ?thesis
    proof (cases "is401 err \<and> \<not> isRefreshEndpoint config \<and> canRefresh c")
      case False
      with Rejected show ?thesis
        by (auto simp: alone_def request_def inner_request_def call_request_def
            first_attempt_settled_def set_phase_def canRefresh_def)
    next
      case True
      show ?thesis
      proof (cases "refresh_response net (refresh_calls c)")
        case (Resolved u)
        with True Rejected assms(3) nothing nobody idle show ?thesis
          by (simp add: alone_def request_def inner_request_def call_request_def
              first_attempt_settled_def set_phase_def canRefresh_def await_doRefresh_def
              doRefresh_def refresh_settled_def refresh_settles_def resume_def reissued_def
              resumed_def retry_settled_def Let_def)
      next
        case (Rejected e)
        with True \<open>inner_response net (length (inner_calls c)) config = Rejected err\<close>
          assms(3) nothing nobody idle show ?thesis
          by (simp add: alone_def request_def inner_request_def call_request_def
              first_attempt_settled_def set_phase_def canRefresh_def await_doRefresh_def
              doRefresh_def refresh_settled_def refresh_settles_def resume_def reissued_def
              resumed_def Let_def)
      qed
    qed
  qed
qed

lemma run_two_waiting: "run two_waiting idle = Some two_waiting_state"
  by (simp add: two_waiting_def idle_def two_waiting_state_def call_request_def
      first_attempt_settled_def doRefresh_def set_phase_def is401_def err401_def
      isRefreshEndpoint_def profile_request_def orders_request_def canRefresh_def Let_def)

lemma run_first_refreshed: "run first_refreshed idle = Some first_refreshed_state"
  by (simp add: first_refreshed_def idle_def first_refreshed_state_def call_request_def
      first_attempt_settled_def doRefresh_def set_phase_def is401_def err401_def
      isRefreshEndpoint_def profile_request_def orders_request_def canRefresh_def Let_def
      refresh_settles_def refresh_settled_def resume_def reissued_def resumed_def)

lemma step_slow_second:
  "step (InnerSettles 1 (Rejected err401)) first_refreshed_state = Some slow_second_state"
  by (simp add: first_refreshed_state_def slow_second_state_def
      first_attempt_settled_def doRefresh_def set_phase_def is401_def err401_def
      isRefreshEndpoint_def orders_request_def canRefresh_def Let_def)

lemma run_one_waiting: "run one_waiting idle = Some one_waiting_state"
  by (simp add: one_waiting_def idle_def one_waiting_state_def call_request_def
      first_attempt_settled_def doRefresh_def set_phase_def is401_def err401_def
      isRefreshEndpoint_def profile_request_def orders_request_def canRefresh_def Let_def)

lemma refused_one_waiting: "refused one_waiting idle = [0]"
  by (simp add: one_waiting_def idle_def call_request_def
      first_attempt_settled_def doRefresh_def set_phase_def is401_def err401_def
      isRefreshEndpoint_def profile_request_def orders_request_def canRefresh_def Let_def)

lemma refused_two_waiting: "refused two_waiting idle = [1, 0]"
  by (simp add: two_waiting_def idle_def call_request_def
      first_attempt_settled_def doRefresh_def set_phase_def is401_def err401_def
      isRefreshEndpoint_def profile_request_def orders_request_def canRefresh_def Let_def)

lemma settle_one_waiting:
  "refresh_settles 0 (Resolved ()) one_waiting_state = first_refreshed_state"
  by (simp add: one_waiting_state_def first_refreshed_state_def refresh_settles_def
      refresh_settled_def resume_def reissued_def resumed_def)

lemma settle_two_rejected:
  "refresh_settles 0 (Rejected session_expired) two_waiting_state = two_rejected_state"
  by (simp add: two_waiting_state_def two_rejected_state_def refresh_settles_def
      refresh_settled_def resume_def reissued_def resumed_def)

lemma settle_two_retried:
  "refresh_settles 0 (Resolved ()) two_waiting_state = two_retried_state"
  by (simp add: two_waiting_state_def two_retried_state_def refresh_settles_def
      refresh_settled_def resume_def reissued_def resumed_def)

lemma run_three_waiting: "run three_waiting idle = Some three_waiting_state"
  by (simp add: three_waiting_def idle_def three_waiting_state_def call_request_def
      first_attempt_settled_def doRefresh_def set_phase_def is401_def err401_def
      isRefreshEndpoint_def profile_request_def orders_request_def canRefresh_def Let_def)

lemma refused_three_waiting: "refused three_waiting idle = [2, 0, 1]"
  by (simp add: three_waiting_def idle_def call_request_def
      first_attempt_settled_def doRefresh_def set_phase_def is401_def err401_def
      isRefreshEndpoint_def profile_request_def orders_request_def canRefresh_def Let_def)

lemma run_append:
  "run (es @ es') c = (case run es c of None \<Rightarrow> None | Some c' \<Rightarrow> run es' c')"
  by (induction es arbitrary: c) (auto split: option.splits)

lemma run_slow_second_request: "run slow_second_request idle = Some slow_second_state"
  by (simp only: slow_second_request_def run_append run_first_refreshed option.case
      run.simps step_slow_second)

lemma run_refresh_rejected_for_two: "run refresh_rejected_for_two idle = Some two_rejected_state"
  by (simp add: refresh_rejected_for_two_def run_append run_two_waiting)
    (simp add: two_waiting_state_def two_rejected_state_def refresh_settles_def
      refresh_settled_def resume_def reissued_def resumed_def)

lemma waiting_two_waiting: "waiting two_waiting_state = [0, 1]"
  by (simp add: waiting_def two_waiting_state_def upt_rec)

section \<open>Claims about concurrent callers\<close>

text \<open>
  C3, as the code has it. Take a state the adapter can reach in which no refresh is in
  flight, and from there any course of events in which no refresh settles: calls of
  \<open>request\<close> and settlements of inner requests, in any number and order. Let the \<open>N \<ge> 1\<close>
  requests of \<open>refused\<close> be those whose first attempt fails in that course with a 401 that
  is not against the refresh endpoint. Then \<^verbatim>\<open>refreshTokens()\<close> was called exactly once
  in that course; the invocations that wait for a refresh are exactly these \<open>N\<close>, queued
  in the order of their failures; all of them wait for that one promise and each has
  issued its request once. When this refresh resolves, no further refresh is called, each
  of the \<open>N\<close> issues its request a second time, in the order in which they began to wait,
  and whatever happens later none of them issues it a third time. When this refresh is
  rejected, no further refresh is called, no request is issued, each of the \<open>N\<close> is settled
  with the rejection of the refresh, and whatever happens later none of them is issued
  again. And a request that was under way with no answer yet when the refresh settled,
  resolved or rejected, and then gets such a 401, starts a second refresh and waits for
  its promise.
\<close>

theorem one_refresh_for_one_batch:
  assumes "run before idle = Some c0" and "refreshPromise c0 = None"
    and "run es c0 = Some c" and "list_all (\<lambda>e. \<not> is_refresh_settles e) es"
    and "refused es c0 \<noteq> []"
  shows "refresh_calls c = Suc (refresh_calls c0)
    \<and> refreshPromise c = Some (refresh_calls c0)
    \<and> waiters c = refused es c0 \<and> distinct (refused es c0)
    \<and> set (waiting c) = set (refused es c0)
    \<and> list_all (\<lambda>i. phase (invocations c ! i) = AwaitRefresh (refresh_calls c0)
                    \<and> attempts (invocations c ! i) = 1) (refused es c0)
    \<and> step (RefreshSettles (refresh_calls c0) (Resolved ())) c =
          Some (refresh_settles (refresh_calls c0) (Resolved ()) c)
    \<and> refresh_calls (refresh_settles (refresh_calls c0) (Resolved ()) c) =
          Suc (refresh_calls c0)
    \<and> list_all
          (\<lambda>i. phase (invocations (refresh_settles (refresh_calls c0) (Resolved ()) c) ! i) =
                  AwaitRetry
              \<and> attempts (invocations (refresh_settles (refresh_calls c0) (Resolved ()) c) ! i) =
                  2)
          (refused es c0)
    \<and> inner_calls (refresh_settles (refresh_calls c0) (Resolved ()) c) =
          inner_calls c @ map (\<lambda>i. request_config (invocations c ! i)) (refused es c0)
    \<and> (\<forall>later c'. run later (refresh_settles (refresh_calls c0) (Resolved ()) c) = Some c' \<longrightarrow>
          list_all (\<lambda>i. attempts (invocations c' ! i) = 2) (refused es c0))
    \<and> (\<forall>e. step (RefreshSettles (refresh_calls c0) (Rejected e)) c =
            Some (refresh_settles (refresh_calls c0) (Rejected e) c)
          \<and> refresh_calls (refresh_settles (refresh_calls c0) (Rejected e) c) =
              Suc (refresh_calls c0)
          \<and> inner_calls (refresh_settles (refresh_calls c0) (Rejected e) c) = inner_calls c
          \<and> list_all
              (\<lambda>i. phase (invocations (refresh_settles (refresh_calls c0) (Rejected e) c) ! i) =
                      Settled (Rejected e)
                  \<and> attempts
                      (invocations (refresh_settles (refresh_calls c0) (Rejected e) c) ! i) = 1)
              (refused es c0)
          \<and> (\<forall>later c'.
                run later (refresh_settles (refresh_calls c0) (Rejected e) c) = Some c' \<longrightarrow>
                list_all (\<lambda>i. attempts (invocations c' ! i) = 1) (refused es c0)))
    \<and> (\<forall>settlement j err.
          j < length (invocations c) \<and> phase (invocations c ! j) = AwaitInner \<and> is401 err
          \<and> \<not> isRefreshEndpoint (request_config (invocations c ! j)) \<longrightarrow>
          step (InnerSettles j (Rejected err)) (refresh_settles (refresh_calls c0) settlement c) =
            Some (first_attempt_settled j (Rejected err)
                    (refresh_settles (refresh_calls c0) settlement c))
          \<and> refresh_calls (first_attempt_settled j (Rejected err)
                (refresh_settles (refresh_calls c0) settlement c)) = Suc (Suc (refresh_calls c0))
          \<and> refreshPromise (first_attempt_settled j (Rejected err)
                (refresh_settles (refresh_calls c0) settlement c)) = Some (Suc (refresh_calls c0))
          \<and> phase (invocations (first_attempt_settled j (Rejected err)
                (refresh_settles (refresh_calls c0) settlement c)) ! j) =
              AwaitRefresh (Suc (refresh_calls c0)))"
proof -
  let ?h = "refresh_calls c0"
  let ?N = "refused es c0"
  let ?ok = "refresh_settles ?h (Resolved ()) c"
  have sf0: "single_flight c0" using assms(1) by (rule run_idle_single_flight)
  have sf: "single_flight c" using sf0 assms(3) by (rule single_flight_run)
  have cn: "counted c" using run_idle_counted [OF assms(1)] assms(3) by (rule counted_run)
  have cl: "cleared c = cleared c0" using assms(4,3) by (rule run_cleared)
  have cr: "canRefresh c"
    using run_idle_canRefresh [OF assms(1)] run_client [OF assms(3)] by (simp add: canRefresh_def)
  have start: "refresh_calls c0 = cleared c0"
    using sf0 assms(2) by (simp add: single_flight_def)
  have "waiting c0 = []"
    using sf0 assms(2)
    by (auto simp: single_flight_def waiting_def filter_empty_conv list_all_length)
  with run_idle_queued [OF assms(1)] have "waiters c0 = []" by (simp add: queued_def)
  with run_waiters [OF assms(4,3)] have wq: "waiters c = ?N" by simp
  have qd: "queued c"
    using run_idle_queued [OF assms(1)] assms(3) by (rule queued_run)
  with wq have queue: "distinct ?N" "set (waiting c) = set ?N"
    by (simp_all add: queued_def)
  have handle: "awaits (phase (invocations c ! i)) = refreshPromise c"
    and mem: "invocations c ! i \<in> set (invocations c)"
    and len: "i < length (invocations c)"
    if "i \<in> set ?N" for i
  proof -
    from that queue(2) have w: "i \<in> set (waiting c)" by simp
    then show l: "i < length (invocations c)" by (simp add: waiting_iff)
    then show m: "invocations c ! i \<in> set (invocations c)" by simp
    from w have "awaits (phase (invocations c ! i)) \<noteq> None" by (simp add: waiting_iff)
    with sf m show "awaits (phase (invocations c ! i)) = refreshPromise c"
      by (auto simp: single_flight_def list_all_iff)
  qed
  from assms(5) obtain k where k: "k \<in> set ?N" by (cases ?N) auto
  then have "k \<in> set (waiting c)" using queue(2) by simp
  then have "awaits (phase (invocations c ! k)) \<noteq> None" by (simp add: waiting_iff)
  then have "refreshPromise c \<noteq> None" using handle [OF k] by simp
  then obtain h where h: "refreshPromise c = Some h" by auto
  with sf cl start have "in_flight c = [h]" "refresh_calls c = Suc ?h" "Suc h = refresh_calls c"
    by (auto simp: single_flight_def)
  then have rp: "refreshPromise c = Some ?h" and fl: "in_flight c = [?h]"
    and rc: "refresh_calls c = Suc ?h"
    using h by auto
  have before: "phase (invocations c ! i) = AwaitRefresh ?h \<and> attempts (invocations c ! i) = 1"
    if "i \<in> set ?N" for i
  proof -
    from handle [OF that] rp have p: "phase (invocations c ! i) = AwaitRefresh ?h"
      by (simp add: awaits_Some_iff)
    from cn mem [OF that] have "attempts (invocations c ! i) \<in>
        set (attempts_allowed (phase (invocations c ! i)))"
      by (simp add: counted_def list_all_iff)
    with p show ?thesis by simp
  qed
  have nth: "invocations (refresh_settles ?h settlement c) ! i =
      resume ?h settlement (invocations c ! i)"
    and len': "i < length (invocations (refresh_settles ?h settlement c))"
    if "i < length (invocations c)" for i settlement
    using that by (simp_all add: refresh_settles_def refresh_settled_def)
  have after: "phase (invocations ?ok ! i) = AwaitRetry \<and> attempts (invocations ?ok ! i) = 2"
    if "i \<in> set ?N" for i
    using before [OF that] nth [OF len [OF that]] by (simp add: resume_def)
  have refused_after: "phase (invocations (refresh_settles ?h (Rejected e) c) ! i) =
        Settled (Rejected e)
      \<and> attempts (invocations (refresh_settles ?h (Rejected e) c) ! i) = 1"
    if "i \<in> set ?N" for i e
    using before [OF that] nth [OF len [OF that]] by (simp add: resume_def)
  have "resumed ?h c = waiters c"
    unfolding resumed_def using before wq by (intro filter_True) simp
  then have calls: "inner_calls ?ok =
      inner_calls c @ map (\<lambda>i. request_config (invocations c ! i)) ?N"
    using wq by (simp add: refresh_settles_def refresh_settled_def reissued_def)
  have st: "step (RefreshSettles ?h settlement) c = Some (refresh_settles ?h settlement c)"
    for settlement
    using fl by simp
  have rc': "refresh_calls (refresh_settles ?h settlement c) = Suc ?h" for settlement
    using rc by (simp add: refresh_settles_def refresh_settled_def)
  have quiet: "inner_calls (refresh_settles ?h (Rejected e) c) = inner_calls c" for e
    by (simp add: refresh_settles_def refresh_settled_def reissued_def)
  have later: "list_all (\<lambda>i. attempts (invocations c' ! i) = 2) ?N"
    if "run later ?ok = Some c'" for later c'
  proof -
    have "attempts (invocations c' ! i) = 2" if i: "i \<in> set ?N" for i
      using run_keeps_retried [OF \<open>run later ?ok = Some c'\<close> len' [OF len [OF i]]]
        after [OF i] by simp
    then show ?thesis by (simp add: list_all_iff)
  qed
  have never: "list_all (\<lambda>i. attempts (invocations c' ! i) = 1) ?N"
    if "run later (refresh_settles ?h (Rejected e) c) = Some c'" for later c' e
  proof -
    have "attempts (invocations c' ! i) = 1" if i: "i \<in> set ?N" for i
      using run_keeps_retried [OF \<open>run later (refresh_settles ?h (Rejected e) c) = Some c'\<close>
          len' [OF len [OF i]]] refused_after [OF i, of e] by simp
    then show ?thesis by (simp add: list_all_iff)
  qed
  have late: "step (InnerSettles j (Rejected err)) (refresh_settles ?h settlement c) =
        Some (first_attempt_settled j (Rejected err) (refresh_settles ?h settlement c))
      \<and> refresh_calls (first_attempt_settled j (Rejected err) (refresh_settles ?h settlement c)) =
        Suc (Suc ?h)
      \<and> refreshPromise (first_attempt_settled j (Rejected err)
          (refresh_settles ?h settlement c)) = Some (Suc ?h)
      \<and> phase (invocations (first_attempt_settled j (Rejected err)
          (refresh_settles ?h settlement c)) ! j) = AwaitRefresh (Suc ?h)"
    if "j < length (invocations c)" "phase (invocations c ! j) = AwaitInner" "is401 err"
      "\<not> isRefreshEndpoint (request_config (invocations c ! j))" for settlement j err
  proof -
    let ?s = "refresh_settles ?h settlement c"
    have "?h \<in> set (in_flight c)" using fl by simp
    note settled = single_flight_refresh_settles [OF sf this, of settlement]
    have same: "invocations ?s ! j = invocations c ! j"
      using nth [OF that(1), of settlement] that(2) by (simp add: resume_def)
    have can: "canRefresh ?s"
      using cr by (simp add: canRefresh_def refresh_settles_def refresh_settled_def)
    have ep: "\<not> isRefreshEndpoint (request_config (invocations ?s ! j))"
      using that(4) same by simp
    from fresh_refresh [OF settled(2) len' [OF that(1)] that(3) ep can settled(1)]
      same that(1,2) len' [OF that(1), of settlement] rc' [of settlement]
    show ?thesis by simp
  qed
  show ?thesis
    using rc rp wq queue st rc' calls quiet before after refused_after later never late
    by (simp add: list_all_iff)
qed


theorem one_refresh_for_one_batch_witness:
  "run [] idle = Some (idle :: string coordinator)
   \<and> refreshPromise (idle :: string coordinator) = None
   \<and> run two_waiting idle = Some two_waiting_state
   \<and> list_all (\<lambda>e. \<not> is_refresh_settles e) two_waiting
   \<and> refused two_waiting idle = [1, 0]
   \<and> refresh_calls two_waiting_state = 1
   \<and> waiters two_waiting_state = [1, 0]
   \<and> step (RefreshSettles 0 (Resolved ())) two_waiting_state = Some two_retried_state
   \<and> refresh_calls two_retried_state = 1
   \<and> map attempts (invocations two_retried_state) = [2, 2]
   \<and> inner_calls two_retried_state =
       [profile_request, orders_request, orders_request, profile_request]
   \<and> step (RefreshSettles 0 (Rejected session_expired)) two_waiting_state =
       Some two_rejected_state
   \<and> refresh_calls two_rejected_state = 1
   \<and> map attempts (invocations two_rejected_state) = [1, 1]
   \<and> inner_calls two_rejected_state = [profile_request, orders_request]
   \<and> run one_waiting idle = Some one_waiting_state
   \<and> refused one_waiting idle = [0]
   \<and> step (InnerSettles 1 (Rejected err401))
        (refresh_settles 0 (Resolved ()) one_waiting_state) = Some slow_second_state
   \<and> refresh_calls slow_second_state = 2
   \<and> refreshPromise slow_second_state = Some 1
   \<and> run three_waiting idle = Some three_waiting_state
   \<and> refused three_waiting idle = [2, 0, 1]
   \<and> waiters three_waiting_state = [2, 0, 1]
   \<and> refresh_calls three_waiting_state = 1"
proof -
  let ?idle = "idle :: string coordinator"
  have start: "run [] ?idle = Some ?idle" "refreshPromise ?idle = None"
    and zero: "refresh_calls ?idle = 0"
    by (simp_all add: idle_def)
  have quiet: "list_all (\<lambda>e. \<not> is_refresh_settles e) two_waiting"
    "list_all (\<lambda>e. \<not> is_refresh_settles e) one_waiting"
    "list_all (\<lambda>e. \<not> is_refresh_settles e) three_waiting"
    by (simp_all add: two_waiting_def one_waiting_def three_waiting_def)
  have some: "refused two_waiting ?idle \<noteq> []" "refused one_waiting ?idle \<noteq> []"
    "refused three_waiting ?idle \<noteq> []"
    by (simp_all add: refused_two_waiting refused_one_waiting refused_three_waiting)
  note three = one_refresh_for_one_batch [OF start run_three_waiting quiet(3) some(3)]
  have d1: "waiters three_waiting_state = [2, 0, 1]"
    and d2: "refresh_calls three_waiting_state = 1"
    using three by (simp_all add: zero refused_three_waiting)
  note two = one_refresh_for_one_batch [OF start run_two_waiting quiet(1) some(1)]
  note one = one_refresh_for_one_batch [OF start run_one_waiting quiet(2) some(2)]
  have a1: "refresh_calls two_waiting_state = 1" and a2: "waiters two_waiting_state = [1, 0]"
    using two by (simp_all add: zero refused_two_waiting)
  have a3: "step (RefreshSettles 0 (Resolved ())) two_waiting_state = Some two_retried_state"
    and a4: "refresh_calls two_retried_state = 1"
    using two by (simp_all add: zero settle_two_retried)
  have "step (RefreshSettles (refresh_calls ?idle) (Rejected session_expired))
        two_waiting_state =
      Some (refresh_settles (refresh_calls ?idle) (Rejected session_expired) two_waiting_state)
    \<and> refresh_calls (refresh_settles (refresh_calls ?idle) (Rejected session_expired)
        two_waiting_state) = Suc (refresh_calls ?idle)
    \<and> inner_calls (refresh_settles (refresh_calls ?idle) (Rejected session_expired)
        two_waiting_state) = inner_calls two_waiting_state"
    using two by blast
  then have a5: "step (RefreshSettles 0 (Rejected session_expired)) two_waiting_state =
      Some two_rejected_state"
    and a6: "refresh_calls two_rejected_state = 1"
    and a7: "inner_calls two_rejected_state = inner_calls two_waiting_state"
    by (simp_all add: zero settle_two_rejected)
  have pending: "1 < length (invocations one_waiting_state)"
    "phase (invocations one_waiting_state ! 1) = AwaitInner" "is401 err401"
    "\<not> isRefreshEndpoint (request_config (invocations one_waiting_state ! 1))"
    by (simp_all add: one_waiting_state_def is401_def err401_def isRefreshEndpoint_def
        orders_request_def)
  have "step (InnerSettles 1 (Rejected err401))
        (refresh_settles (refresh_calls ?idle) (Resolved ()) one_waiting_state) =
      Some (first_attempt_settled 1 (Rejected err401)
        (refresh_settles (refresh_calls ?idle) (Resolved ()) one_waiting_state))
    \<and> refresh_calls (first_attempt_settled 1 (Rejected err401)
        (refresh_settles (refresh_calls ?idle) (Resolved ()) one_waiting_state)) =
      Suc (Suc (refresh_calls ?idle))
    \<and> refreshPromise (first_attempt_settled 1 (Rejected err401)
        (refresh_settles (refresh_calls ?idle) (Resolved ()) one_waiting_state)) =
      Some (Suc (refresh_calls ?idle))"
    using one pending by blast
  then have late: "step (InnerSettles 1 (Rejected err401))
        (refresh_settles 0 (Resolved ()) one_waiting_state) =
      Some (first_attempt_settled 1 (Rejected err401)
        (refresh_settles 0 (Resolved ()) one_waiting_state))
    \<and> refresh_calls (first_attempt_settled 1 (Rejected err401)
        (refresh_settles 0 (Resolved ()) one_waiting_state)) = 2
    \<and> refreshPromise (first_attempt_settled 1 (Rejected err401)
        (refresh_settles 0 (Resolved ()) one_waiting_state)) = Some 1"
    by (simp add: zero)
  have same: "first_attempt_settled 1 (Rejected err401)
      (refresh_settles 0 (Resolved ()) one_waiting_state) = slow_second_state"
    using late step_slow_second by (simp add: settle_one_waiting)
  have b1: "step (InnerSettles 1 (Rejected err401))
      (refresh_settles 0 (Resolved ()) one_waiting_state) = Some slow_second_state"
    and b2: "refresh_calls slow_second_state = 2"
    and b3: "refreshPromise slow_second_state = Some 1"
    using late unfolding same by simp_all
  have c1: "map attempts (invocations two_retried_state) = [2, 2]"
    "inner_calls two_retried_state =
       [profile_request, orders_request, orders_request, profile_request]"
    "map attempts (invocations two_rejected_state) = [1, 1]"
    "inner_calls two_rejected_state = [profile_request, orders_request]"
    by (simp_all add: two_retried_state_def two_rejected_state_def)
  from start run_two_waiting quiet(1) refused_two_waiting a1 a2 a3 a4 c1 a5 a6
    run_one_waiting refused_one_waiting b1 b2 b3 run_three_waiting refused_three_waiting d1 d2
  show ?thesis by blast
qed

text \<open>
  The claim C3 as the specification words it fails in two ways. Two requests are under
  way together and each gets a 401 on its first attempt. When the 401 of the second one
  arrives after the refresh that the first one started has resolved, a second refresh is
  called. And when both wait for the one refresh and it is rejected, neither request is
  issued again.
\<close>

theorem concurrent_401s_counterexample:
  "is401 err401 \<and> \<not> isRefreshEndpoint profile_request \<and> \<not> isRefreshEndpoint orders_request
   \<and> canRefresh (idle :: string coordinator)
   \<and> run slow_second_request idle = Some slow_second_state
   \<and> refresh_calls slow_second_state = 2
   \<and> run refresh_rejected_for_two idle = Some two_rejected_state
   \<and> map attempts (invocations two_rejected_state) = [1, 1]
   \<and> inner_calls two_rejected_state = [profile_request, orders_request]"
  using run_slow_second_request run_refresh_rejected_for_two
  by (simp add: is401_def err401_def isRefreshEndpoint_def profile_request_def
      orders_request_def canRefresh_def idle_def slow_second_state_def
      two_rejected_state_def)

text \<open>
  C9. In every state the adapter can reach from its start, whatever the calls and the
  settlements were: at most one refresh call is in flight; the field \<open>refreshPromise\<close> is
  empty exactly when none is; every invocation that waits for a refresh waits for the
  promise stored in the field; and the callback that clears the field has run once for
  each refresh call that has settled. When the refresh in flight settles, resolved or
  rejected, the field is empty afterwards and no refresh is in flight. And whenever the
  field is empty, a first attempt that fails with a 401 that qualifies calls
  \<^verbatim>\<open>refreshTokens()\<close> again and stores the new promise.
\<close>

theorem refresh_in_flight_invariant:
  assumes "run es idle = Some c"
  shows "length (in_flight c) \<le> 1
    \<and> (refreshPromise c = None \<longleftrightarrow> in_flight c = [])
    \<and> list_all (\<lambda>i. awaits (phase (invocations c ! i)) = refreshPromise c) (waiting c)
    \<and> cleared c + length (in_flight c) = refresh_calls c
    \<and> (\<forall>h settlement. h \<in> set (in_flight c) \<longrightarrow>
          step (RefreshSettles h settlement) c = Some (refresh_settles h settlement c)
          \<and> refreshPromise (refresh_settles h settlement c) = None
          \<and> in_flight (refresh_settles h settlement c) = []
          \<and> cleared (refresh_settles h settlement c) = Suc (cleared c)
          \<and> refresh_calls (refresh_settles h settlement c) = refresh_calls c)
    \<and> (\<forall>i err. refreshPromise c = None \<and> i < length (invocations c)
          \<and> phase (invocations c ! i) = AwaitInner \<and> is401 err
          \<and> \<not> isRefreshEndpoint (request_config (invocations c ! i)) \<longrightarrow>
          step (InnerSettles i (Rejected err)) c = Some (first_attempt_settled i (Rejected err) c)
          \<and> refreshPromise (first_attempt_settled i (Rejected err) c) = Some (refresh_calls c)
          \<and> in_flight (first_attempt_settled i (Rejected err) c) = [refresh_calls c]
          \<and> refresh_calls (first_attempt_settled i (Rejected err) c) = Suc (refresh_calls c))"
proof -
  have sf: "single_flight c" using assms by (rule run_idle_single_flight)
  have cr: "canRefresh c" using assms by (rule run_idle_canRefresh)
  have one: "length (in_flight c) \<le> 1" "refreshPromise c = None \<longleftrightarrow> in_flight c = []"
    "cleared c + length (in_flight c) = refresh_calls c"
    using sf by (auto simp: single_flight_def split: option.splits)
  have same: "list_all (\<lambda>i. awaits (phase (invocations c ! i)) = refreshPromise c) (waiting c)"
  proof -
    have "awaits (phase (invocations c ! i)) = refreshPromise c" if "i \<in> set (waiting c)" for i
    proof -
      from that have "invocations c ! i \<in> set (invocations c)"
        and "awaits (phase (invocations c ! i)) \<noteq> None"
        by (simp_all add: waiting_iff)
      with sf show ?thesis by (auto simp: single_flight_def list_all_iff)
    qed
    then show ?thesis by (simp add: list_all_iff)
  qed
  have settle: "step (RefreshSettles h settlement) c = Some (refresh_settles h settlement c)
          \<and> refreshPromise (refresh_settles h settlement c) = None
          \<and> in_flight (refresh_settles h settlement c) = []
          \<and> cleared (refresh_settles h settlement c) = Suc (cleared c)
          \<and> refresh_calls (refresh_settles h settlement c) = refresh_calls c"
    if "h \<in> set (in_flight c)" for h settlement
    using single_flight_refresh_settles [OF sf that] that by simp
  have again: "step (InnerSettles i (Rejected err)) c = Some (first_attempt_settled i (Rejected err) c)
          \<and> refreshPromise (first_attempt_settled i (Rejected err) c) = Some (refresh_calls c)
          \<and> in_flight (first_attempt_settled i (Rejected err) c) = [refresh_calls c]
          \<and> refresh_calls (first_attempt_settled i (Rejected err) c) = Suc (refresh_calls c)"
    if "refreshPromise c = None" "i < length (invocations c)"
      "phase (invocations c ! i) = AwaitInner" "is401 err"
      "\<not> isRefreshEndpoint (request_config (invocations c ! i))" for i err
    using fresh_refresh [OF that(1,2,4,5) cr sf] that by simp
  show ?thesis using one same settle again by blast
qed

theorem refresh_in_flight_invariant_witness:
  "run two_waiting idle = Some two_waiting_state
   \<and> length (in_flight two_waiting_state) \<le> 1
   \<and> refreshPromise two_waiting_state = Some 0
   \<and> map (\<lambda>i. awaits (phase (invocations two_waiting_state ! i))) (waiting two_waiting_state) =
       [Some 0, Some 0]
   \<and> refreshPromise (refresh_settles 0 (Rejected session_expired) two_waiting_state) = None
   \<and> cleared (refresh_settles 0 (Rejected session_expired) two_waiting_state) = 1
   \<and> refreshPromise (refresh_settles 0 (Resolved ()) two_waiting_state) = None
   \<and> cleared (refresh_settles 0 (Resolved ()) two_waiting_state) = 1
   \<and> run first_refreshed idle = Some first_refreshed_state
   \<and> refreshPromise first_refreshed_state = None
   \<and> step (InnerSettles 1 (Rejected err401)) first_refreshed_state = Some slow_second_state
   \<and> refreshPromise slow_second_state = Some 1
   \<and> refresh_calls slow_second_state = 2"
proof -
  have flying: "0 \<in> set (in_flight two_waiting_state)" and none: "cleared two_waiting_state = 0"
    by (simp_all add: two_waiting_state_def)
  have settle: "refreshPromise (refresh_settles 0 settlement two_waiting_state) = None
    \<and> cleared (refresh_settles 0 settlement two_waiting_state) = Suc (cleared two_waiting_state)"
    for settlement
    using refresh_in_flight_invariant [OF run_two_waiting] flying by blast
  have c2: "length (in_flight two_waiting_state) \<le> 1"
    using refresh_in_flight_invariant [OF run_two_waiting] by blast
  have c3: "refreshPromise two_waiting_state = Some 0"
    by (simp add: two_waiting_state_def)
  have c4: "map (\<lambda>i. awaits (phase (invocations two_waiting_state ! i)))
      (waiting two_waiting_state) = [Some 0, Some 0]"
    by (simp add: waiting_two_waiting) (simp add: two_waiting_state_def)
  have c5: "refreshPromise (refresh_settles 0 (Rejected session_expired) two_waiting_state) = None"
    and c6: "cleared (refresh_settles 0 (Rejected session_expired) two_waiting_state) = 1"
    and c7: "refreshPromise (refresh_settles 0 (Resolved ()) two_waiting_state) = None"
    and c8: "cleared (refresh_settles 0 (Resolved ()) two_waiting_state) = 1"
    using settle [of "Rejected session_expired"] settle [of "Resolved ()"] none by simp_all
  have pending: "refreshPromise first_refreshed_state = None"
    "1 < length (invocations first_refreshed_state)"
    "phase (invocations first_refreshed_state ! 1) = AwaitInner" "is401 err401"
    "\<not> isRefreshEndpoint (request_config (invocations first_refreshed_state ! 1))"
    and calls: "refresh_calls first_refreshed_state = 1"
    by (simp_all add: first_refreshed_state_def is401_def err401_def isRefreshEndpoint_def
        orders_request_def)
  have again: "step (InnerSettles 1 (Rejected err401)) first_refreshed_state =
      Some (first_attempt_settled 1 (Rejected err401) first_refreshed_state)
    \<and> refreshPromise (first_attempt_settled 1 (Rejected err401) first_refreshed_state) =
      Some (refresh_calls first_refreshed_state)
    \<and> refresh_calls (first_attempt_settled 1 (Rejected err401) first_refreshed_state) =
      Suc (refresh_calls first_refreshed_state)"
    using refresh_in_flight_invariant [OF run_first_refreshed] pending by blast
  then have same: "first_attempt_settled 1 (Rejected err401) first_refreshed_state =
      slow_second_state"
    using step_slow_second by simp
  have c12: "refreshPromise slow_second_state = Some 1"
    and c13: "refresh_calls slow_second_state = 2"
    using again calls unfolding same by simp_all
  from run_two_waiting c2 c3 c4 c5 c6 c7 c8 run_first_refreshed pending(1) step_slow_second
    c12 c13
  show ?thesis by blast
qed

end
